theory Spec2Isabelle
  imports Complex_Main "HOL-Library.AList" "HOL-Library.Extended_Nat" "HOL-Library.Finite_Map"
    "HOL-Library.Product_Lexorder" "HOL-Library.Char_ord" "HOL-Library.List_Lexorder"
begin

section \<open>Errors raised by the Python code\<close>

datatype py_error = KeyError | ZeroDivisionError | AttributeError

section \<open>geometry.py\<close>

text \<open>
  \<^verbatim>\<open>Vector\<close> (alias \<^verbatim>\<open>Position\<close>) is a dataclass with two numeric fields \<^verbatim>\<open>x\<close> and \<^verbatim>\<open>y\<close>.
  Python floats are idealised as real numbers throughout this development. The selectors
  are called \<open>vec_x\<close> and \<open>vec_y\<close>, since \<open>x\<close> and \<open>y\<close> would capture every variable of that
  name.
\<close>

datatype Vector = Vector (vec_x: real) (vec_y: real)

type_synonym Position = Vector

type_synonym HexCoord = "int \<times> int"

definition distance_sq :: "Position \<Rightarrow> Position \<Rightarrow> real" where
  "distance_sq p1 p2 = (vec_x p1 - vec_x p2)\<^sup>2 + (vec_y p1 - vec_y p2)\<^sup>2"

definition distance :: "Position \<Rightarrow> Position \<Rightarrow> real" where
  "distance p1 p2 = sqrt (distance_sq p1 p2)"

definition hex_distance :: "HexCoord \<Rightarrow> HexCoord \<Rightarrow> int" where
  "hex_distance a b =
     (case a of (q1, r1) \<Rightarrow> case b of (q2, r2) \<Rightarrow>
        (\<bar>q1 - q2\<bar> + \<bar>q1 + r1 - q2 - r2\<bar> + \<bar>r1 - r2\<bar>) div 2)"

datatype Circle = Circle (center: Position) (radius: real)

definition is_point_in_circle :: "Position \<Rightarrow> Circle \<Rightarrow> bool" where
  "is_point_in_circle point circle \<longleftrightarrow> distance_sq point (center circle) \<le> (radius circle)\<^sup>2"

definition do_circles_intersect :: "Circle \<Rightarrow> Circle \<Rightarrow> bool" where
  "do_circles_intersect c1 c2 \<longleftrightarrow>
     (let dist_sq = distance_sq (center c1) (center c2);
          radii_sum_sq = (radius c1 + radius c2)\<^sup>2
      in dist_sq < radii_sum_sq)"

definition is_circle_contained :: "Circle \<Rightarrow> Circle \<Rightarrow> bool" where
  "is_circle_contained inner outer \<longleftrightarrow>
     (let dist = distance (center inner) (center outer)
      in dist + radius inner \<le> radius outer)"

section \<open>pathfinding.py: hex grid pathfinding\<close>

text \<open>
  Cube coordinates are triples of floats in the source; they are exact rationals here. Python's
  \<^verbatim>\<open>round\<close> rounds to the nearest integer and a tie to the even neighbour.
\<close>

type_synonym Cube = "rat \<times> rat \<times> rat"

definition axial_to_cube :: "HexCoord \<Rightarrow> Cube" where
  "axial_to_cube hex_coord =
     (case hex_coord of (q, r) \<Rightarrow>
        let x = of_int q; z = of_int r; y = - x - z in (x, y, z))"

definition py_round :: "rat \<Rightarrow> int" where
  "py_round v =
     (let f = \<lfloor>v\<rfloor>; d = v - of_int f
      in if d < 1 / 2 then f
         else if d > 1 / 2 then f + 1
         else if even f then f else f + 1)"

definition cube_round :: "Cube \<Rightarrow> int \<times> int \<times> int" where
  "cube_round cube =
     (case cube of (c0, c1, c2) \<Rightarrow>
        let rx = py_round c0; ry = py_round c1; rz = py_round c2;
            x_diff = \<bar>of_int rx - c0\<bar>;
            y_diff = \<bar>of_int ry - c1\<bar>;
            z_diff = \<bar>of_int rz - c2\<bar>
        in if x_diff > y_diff \<and> x_diff > z_diff then (- ry - rz, ry, rz)
           else if y_diff > z_diff then (rx, - rx - rz, rz)
           else (rx, ry, - rx - ry))"

definition cube_to_axial :: "int \<times> int \<times> int \<Rightarrow> HexCoord" where
  "cube_to_axial cube = (case cube of (c0, c1, c2) \<Rightarrow> (c0, c2))"

definition cube_lerp :: "Cube \<Rightarrow> Cube \<Rightarrow> rat \<Rightarrow> Cube" where
  "cube_lerp a b t =
     (case a of (a0, a1, a2) \<Rightarrow> case b of (b0, b1, b2) \<Rightarrow>
        (a0 + (b0 - a0) * t, a1 + (b1 - a1) * t, a2 + (b2 - a2) * t))"

definition waypoint_step :: "Cube \<Rightarrow> Cube \<Rightarrow> int \<Rightarrow> HexCoord list \<Rightarrow> int \<Rightarrow> HexCoord list" where
  "waypoint_step start_cube end_cube num_segments path i =
     (let t = of_int i / of_int num_segments;
          interpolated_cube = cube_lerp start_cube end_cube t;
          rounded_cube = cube_round interpolated_cube;
          waypoint_hex = cube_to_axial rounded_cube
      in if path = [] \<or> last path \<noteq> waypoint_hex then path @ [waypoint_hex] else path)"

definition find_hex_jump_path :: "HexCoord \<Rightarrow> HexCoord \<Rightarrow> int \<Rightarrow> py_error + HexCoord list" where
  "find_hex_jump_path start_hex end_hex max_range =
     (let total_distance = hex_distance start_hex end_hex
      in if total_distance \<le> max_range then Inr [end_hex]
         else if max_range = 0 then Inl ZeroDivisionError
         else
           let start_cube = axial_to_cube start_hex;
               end_cube = axial_to_cube end_hex;
               num_segments = \<lceil>(of_int total_distance :: rat) / of_int max_range\<rceil>;
               path = foldl (waypoint_step start_cube end_cube num_segments) [] [1..num_segments]
           in if path = [] \<or> last path \<noteq> end_hex
              then (if path \<noteq> [] \<and> hex_distance (last path) end_hex = 0
                    then Inr (butlast path @ [end_hex])
                    else Inr (path @ [end_hex]))
              else Inr path)"

text \<open>
  The property the docstring of \<^verbatim>\<open>find_hex_jump_path\<close> promises ("ensuring no single jump
  exceeds the max\_range"): every jump of the route, the one from the start to the first
  waypoint included, is at hex-distance at most \<open>max_range\<close>.
\<close>

fun jumps_within_range :: "HexCoord \<Rightarrow> HexCoord list \<Rightarrow> int \<Rightarrow> bool" where
  "jumps_within_range prev [] max_range = True"
| "jumps_within_range prev (w # ws) max_range =
     (hex_distance prev w \<le> max_range \<and> jumps_within_range w ws max_range)"

section \<open>unit\_components.py: ColonyComponent\<close>

text \<open>
  A planet as far as the colony component reads and writes it: its owner (a player, compared
  by identity in the source and represented by the player's id here; \<open>None\<close> when unowned)
  and its population. The component carries the owner of its unit.
\<close>

record Planet =
  planet_owner :: "nat option"
  population :: real

record ColonyComponent =
  colony_unit_owner :: nat
  population_cargo :: int
  max_cargo :: int

definition load_population ::
  "ColonyComponent \<Rightarrow> Planet \<Rightarrow> int \<Rightarrow> bool \<times> Planet \<times> ColonyComponent" where
  "load_population self planet amount =
     (if planet_owner planet \<noteq> Some (colony_unit_owner self) then (False, planet, self)
      else if population planet < of_int amount then (False, planet, self)
      else if population_cargo self + amount > max_cargo self then (False, planet, self)
      else (True,
            planet\<lparr>population := population planet - of_int amount\<rparr>,
            self\<lparr>population_cargo := population_cargo self + amount\<rparr>))"

definition unload_population ::
  "ColonyComponent \<Rightarrow> Planet \<Rightarrow> int \<Rightarrow> bool \<times> Planet \<times> ColonyComponent" where
  "unload_population self planet amount =
     (if population_cargo self < amount then (False, planet, self)
      else
        let planet1 = (if planet_owner planet = None
                       then planet\<lparr>planet_owner := Some (colony_unit_owner self)\<rparr>
                       else planet)
        in if planet_owner planet1 \<noteq> Some (colony_unit_owner self) then (False, planet1, self)
           else (True,
                 planet1\<lparr>population := population planet1 + of_int amount\<rparr>,
                 self\<lparr>population_cargo := population_cargo self - amount\<rparr>))"

section \<open>unit\_components.py: propulsion and inhibitor components\<close>

datatype HyperdriveType = BASIC | ADVANCED

datatype JumpStatus = CHARGING | READY | JUMPING | ERROR

text \<open>
  A wormhole as the order and turn code reads it. \<open>exit_wormhole_id\<close> is \<open>None\<close> until the pair
  is linked.
\<close>

record Wormhole =
  wh_id :: nat
  wh_in_system :: string
  wh_in_hex :: HexCoord
  wh_position :: Position
  exit_system_name :: string
  exit_wormhole_id :: "nat option"

record Engines =
  speed :: real
  move_target :: "Position option"

record Hyperdrive =
  drive_type :: HyperdriveType
  jump_range :: int
  hex_jump_target :: "(HexCoord \<times> Position) option"
  wormhole_jump_target :: "Wormhole option"
  jump_status :: JumpStatus
  recharge_time_remaining :: int
  RECHARGE_DURATION :: int



record HyperspaceInhibitionFieldEmitter =
  emitter_radius :: real
  is_active :: bool

definition turn_on_field :: "HyperspaceInhibitionFieldEmitter \<Rightarrow> HyperspaceInhibitionFieldEmitter" where
  "turn_on_field self = self\<lparr>is_active := True\<rparr>"

definition turn_off_field :: "HyperspaceInhibitionFieldEmitter \<Rightarrow> HyperspaceInhibitionFieldEmitter" where
  "turn_off_field self = self\<lparr>is_active := False\<rparr>"

section \<open>galaxy.py and entities.py: the world the orders act on\<close>

text \<open>
  Python dictionaries whose iteration order is observed are association lists with the
  insertion-order semantics of \<^verbatim>\<open>dict\<close>: assignment to an existing key keeps its place, a new
  key goes to the end.
\<close>

definition dict_set :: "'k \<Rightarrow> 'v \<Rightarrow> ('k \<times> 'v) list \<Rightarrow> ('k \<times> 'v) list" where
  "dict_set k v d = AList.update k v d"

definition dict_del :: "'k \<Rightarrow> ('k \<times> 'v) list \<Rightarrow> ('k \<times> 'v) list" where
  "dict_del k d = AList.delete k d"

definition dict_values :: "('k \<times> 'v) list \<Rightarrow> 'v list" where
  "dict_values d = map snd d"

record Hex =
  hex_units :: "nat list"
  boundary_circle :: Circle
  static_inhibition_zones :: "Circle list"
  dynamic_inhibition_zones :: "(nat \<times> Circle) list"

definition get_all_inhibition_zones :: "Hex \<Rightarrow> Circle list" where
  "get_all_inhibition_zones self = static_inhibition_zones self @ dict_values (dynamic_inhibition_zones self)"

record StarSystem =
  system_name :: string
  hexes :: "HexCoord \<rightharpoonup> Hex"

record Galaxy =
  systems :: "string \<rightharpoonup> StarSystem"
  wormholes :: "(nat \<times> Wormhole) list"

text \<open>
  The unit with the components the modelled orders touch. \<open>in_galaxy\<close> tells whether the unit's
  reference to the galaxy is set (the galaxy itself is a field of the world). \<open>in_system\<close> is
  \<open>None\<close> between removal from a hex and re-insertion.
\<close>

record Unit =
  unit_id :: nat
  unit_owner :: nat
  in_system :: "string option"
  in_hex :: HexCoord
  position :: Position
  in_galaxy :: bool
  engines_component :: "Engines option"
  hyperdrive_component :: "Hyperdrive option"
  inhibitor_component :: "HyperspaceInhibitionFieldEmitter option"

text \<open>\<open>order_counter\<close> is the class attribute \<^verbatim>\<open>Order.order_counter\<close>.\<close>

record World =
  unit :: Unit
  galaxy :: Galaxy
  order_counter :: nat

section \<open>unit\_orders.py: orders\<close>

datatype OrderStatus = PENDING | IN_PROGRESS | COMPLETED | FAILED | CANCELLED

datatype OrderType =
  REACH_WAYPOINT | MOVE | PATROL | ATTACK | DEFEND | TOGGLE_INHIBITOR | COLONIZE
  | LOAD_COLONISTS | CONSTRUCT

text \<open>
  An entry of the \<^verbatim>\<open>parameters\<close> dictionary: the key is missing, or bound to \<^verbatim>\<open>None\<close>, or
  bound to a value of the type the order code expects under that key.
\<close>

datatype 'a param = Absent | IsNone | Val 'a

record Params =
  destination_system_name :: "string param"
  destination_hex_coord :: "HexCoord param"
  destination_position :: "Position param"
  turn_on :: "bool param"

datatype Order =
  Order (order_id: nat) (order_type: OrderType) (parameters: Params) (status: OrderStatus)
    (sub_orders: "Order list")

fun with_status :: "OrderStatus \<Rightarrow> Order \<Rightarrow> Order" where
  "with_status st (Order i t p s subs) = Order i t p st subs"

fun with_sub_orders :: "Order list \<Rightarrow> Order \<Rightarrow> Order" where
  "with_sub_orders subs (Order i t p s old) = Order i t p s subs"

text \<open>\<^verbatim>\<open>Order(unit, order_type, parameters)\<close>: a new order takes the next id, is PENDING and has no sub-orders.\<close>

definition new_order :: "OrderType \<Rightarrow> Params \<Rightarrow> World \<Rightarrow> Order \<times> World" where
  "new_order t p w = (Order (order_counter w) t p PENDING [], w\<lparr>order_counter := order_counter w + 1\<rparr>)"

definition add_sub_order :: "Order \<Rightarrow> Order \<Rightarrow> Order" where
  "add_sub_order self sub_order = with_sub_orders (sub_orders self @ [sub_order]) self"

fun is_completed :: "Order \<Rightarrow> bool" where
  "is_completed (Order i t p s subs) = (s = COMPLETED \<and> (\<forall>sub \<in> set subs. is_completed sub))"

fun has_active_sub_orders :: "Order \<Rightarrow> bool" where
  "has_active_sub_orders (Order i t p s subs) =
     (\<exists>sub \<in> set subs. status sub \<in> {IN_PROGRESS, PENDING} \<or> has_active_sub_orders sub)"

fun cancel :: "Order \<Rightarrow> Order" where
  "cancel (Order i t p s subs) = Order i t p CANCELLED (map cancel subs)"


text \<open>
  \<^verbatim>\<open>parameters[key]\<close> raises \<^verbatim>\<open>KeyError\<close> on a missing key and may yield \<^verbatim>\<open>None\<close>;
  \<^verbatim>\<open>parameters.get(key, False)\<close> used as a condition is false for a missing key and for \<^verbatim>\<open>None\<close>.
\<close>

fun subscript :: "'a param \<Rightarrow> py_error + 'a option" where
  "subscript Absent = Inl KeyError"
| "subscript IsNone = Inr None"
| "subscript (Val v) = Inr (Some v)"

fun get_flag :: "bool param \<Rightarrow> bool" where
  "get_flag Absent = False"
| "get_flag IsNone = False"
| "get_flag (Val b) = b"

definition find_wormhole_to_system :: "string option \<Rightarrow> string option \<Rightarrow> Galaxy \<Rightarrow> Wormhole option" where
  "find_wormhole_to_system current_system_name target_system_name galaxy_ref =
     find (\<lambda>wormhole_obj. Some (wh_in_system wormhole_obj) = current_system_name \<and>
                          Some (exit_system_name wormhole_obj) = target_system_name)
          (dict_values (wormholes galaxy_ref))"

definition clear_move_target :: "Unit \<Rightarrow> Unit" where
  "clear_move_target u =
     u\<lparr>engines_component := map_option (\<lambda>e. e\<lparr>move_target := None\<rparr>) (engines_component u)\<rparr>"

definition clear_jump_targets :: "Unit \<Rightarrow> Unit" where
  "clear_jump_targets u =
     u\<lparr>hyperdrive_component :=
         map_option (\<lambda>h. h\<lparr>hex_jump_target := None, wormhole_jump_target := None\<rparr>)
           (hyperdrive_component u)\<rparr>"

definition execute_reach_waypoint :: "Order \<Rightarrow> World \<Rightarrow> py_error + (Order \<times> World)" where
  "execute_reach_waypoint self w =
     (case subscript (destination_system_name (parameters self)) of Inl e \<Rightarrow> Inl e | Inr dsys \<Rightarrow>
      case subscript (destination_hex_coord (parameters self)) of Inl e \<Rightarrow> Inl e | Inr dhex \<Rightarrow>
      case subscript (destination_position (parameters self)) of Inl e \<Rightarrow> Inl e | Inr dpos \<Rightarrow>
      let u = unit w; csys = in_system u; chex = in_hex u in
      case (dsys, dhex, dpos) of
        (Some dsys_v, Some dhex_v, Some dpos_v) \<Rightarrow>
          if csys = dsys \<and> chex \<noteq> dhex_v then
            (case hyperdrive_component u of
               None \<Rightarrow> Inr (with_status FAILED self, w)
             | Some hd_comp \<Rightarrow>
                 let hd1 = hd_comp\<lparr>hex_jump_target := Some (dhex_v, dpos_v), wormhole_jump_target := None\<rparr>;
                     u1 = clear_move_target (u\<lparr>hyperdrive_component := Some hd1\<rparr>)
                 in Inr (self, w\<lparr>unit := u1\<rparr>))
          else if csys = dsys \<and> chex = dhex_v then
            (case engines_component u of
               None \<Rightarrow> Inr (with_status FAILED self, w)
             | Some en \<Rightarrow>
                 if distance (position u) dpos_v < 1 / 100 then
                   let u1 = clear_jump_targets (u\<lparr>engines_component := Some (en\<lparr>move_target := None\<rparr>)\<rparr>)
                   in Inr (with_status COMPLETED self, w\<lparr>unit := u1\<rparr>)
                 else
                   let u1 = clear_jump_targets (u\<lparr>engines_component := Some (en\<lparr>move_target := Some dpos_v\<rparr>)\<rparr>)
                   in Inr (self, w\<lparr>unit := u1\<rparr>))
          else
            (case hyperdrive_component u of
               None \<Rightarrow> Inr (with_status FAILED self, w)
             | Some hd_comp \<Rightarrow>
                 (case find_wormhole_to_system csys dsys (galaxy w) of
                    None \<Rightarrow> Inr (with_status FAILED self, w)
                  | Some wormhole \<Rightarrow>
                      let hd1 = hd_comp\<lparr>wormhole_jump_target := Some wormhole, hex_jump_target := None\<rparr>;
                          u1 = clear_move_target (u\<lparr>hyperdrive_component := Some hd1\<rparr>)
                      in Inr (self, w\<lparr>unit := u1\<rparr>)))
      | _ \<Rightarrow> Inr (with_status FAILED self, w))"

text \<open>\<^verbatim>\<open>galaxy_ref.systems[name].hexes[coord]\<close>, and writing a changed hex back.\<close>

definition hex_at :: "Galaxy \<Rightarrow> string option \<Rightarrow> HexCoord \<Rightarrow> py_error + Hex" where
  "hex_at g name coord =
     (case name of None \<Rightarrow> Inl KeyError
      | Some n \<Rightarrow> (case systems g n of None \<Rightarrow> Inl KeyError
                   | Some sys \<Rightarrow> (case hexes sys coord of None \<Rightarrow> Inl KeyError | Some h \<Rightarrow> Inr h)))"

definition put_hex :: "string \<Rightarrow> HexCoord \<Rightarrow> Hex \<Rightarrow> Galaxy \<Rightarrow> Galaxy" where
  "put_hex n coord h g =
     (case systems g n of None \<Rightarrow> g
      | Some sys \<Rightarrow> g\<lparr>systems := (systems g)(n \<mapsto> sys\<lparr>hexes := (hexes sys)(coord \<mapsto> h)\<rparr>)\<rparr>)"

definition execute_toggle_inhibitor :: "Order \<Rightarrow> World \<Rightarrow> py_error + (Order \<times> World)" where
  "execute_toggle_inhibitor self w =
     (let turn_on_v = get_flag (turn_on (parameters self)); u = unit w in
      case inhibitor_component u of
        None \<Rightarrow> Inr (with_status FAILED self, w)
      | Some inhibitor \<Rightarrow>
          (case hex_at (galaxy w) (in_system u) (in_hex u) of
             Inl e \<Rightarrow> Inl e
           | Inr current_hex \<Rightarrow>
               if turn_on_v then
                 let proposed_field = Circle (position u) (emitter_radius inhibitor) in
                 if \<not> is_circle_contained proposed_field (boundary_circle current_hex)
                 then Inr (with_status FAILED self, w)
                 else if \<exists>existing_zone \<in> set (get_all_inhibition_zones current_hex).
                           do_circles_intersect proposed_field existing_zone
                 then Inr (with_status FAILED self, w)
                 else
                   let hex1 = current_hex\<lparr>dynamic_inhibition_zones :=
                                dict_set (unit_id u) proposed_field (dynamic_inhibition_zones current_hex)\<rparr>
                   in Inr (with_status COMPLETED self,
                           w\<lparr>unit := u\<lparr>inhibitor_component := Some (turn_on_field inhibitor)\<rparr>,
                             galaxy := put_hex (the (in_system u)) (in_hex u) hex1 (galaxy w)\<rparr>)
               else
                 let hex1 = current_hex\<lparr>dynamic_inhibition_zones :=
                              dict_del (unit_id u) (dynamic_inhibition_zones current_hex)\<rparr>
                 in Inr (with_status COMPLETED self,
                         w\<lparr>unit := u\<lparr>inhibitor_component := Some (turn_off_field inhibitor)\<rparr>,
                           galaxy := put_hex (the (in_system u)) (in_hex u) hex1 (galaxy w)\<rparr>)))"


text \<open>
  The execute bodies of MOVE (\<^verbatim>\<open>plan_route\<close>), ATTACK, COLONIZE, LOAD\_COLONISTS and CONSTRUCT
  and the completion tests of ATTACK and COLONIZE consult collaborators that are not part of
  the modelled world (route planning over the whole galaxy, other units, celestial bodies,
  players). They are parameters. What the source lets such a body do to its order is fixed by
  the result type of \<open>plan\<close>: it chooses the order's status, appends sub-orders, each built by
  \<^verbatim>\<open>Order(self.unit, type, params, parent_order=self)\<close> and passed to \<^verbatim>\<open>add_sub_order\<close>, and
  changes the world.
\<close>

record Collaborators =
  plan :: "Order \<Rightarrow> World \<Rightarrow> py_error + (OrderStatus \<times> (OrderType \<times> Params) list \<times> World)"
  goal_reached :: "Order \<Rightarrow> World \<Rightarrow> py_error + bool"

fun add_new_sub_orders :: "(OrderType \<times> Params) list \<Rightarrow> Order \<Rightarrow> World \<Rightarrow> Order \<times> World" where
  "add_new_sub_orders [] self w = (self, w)"
| "add_new_sub_orders ((t, p) # specs) self w =
     (case new_order t p w of (sub_order, w1) \<Rightarrow>
        add_new_sub_orders specs (add_sub_order self sub_order) w1)"

definition run_plan :: "Collaborators \<Rightarrow> Order \<Rightarrow> World \<Rightarrow> py_error + (Order \<times> World)" where
  "run_plan C self w =
     (case plan C self w of
        Inl e \<Rightarrow> Inl e
      | Inr (st, specs, w1) \<Rightarrow> Inr (add_new_sub_orders specs (with_status st self) w1))"

definition at_destination :: "Order \<Rightarrow> World \<Rightarrow> py_error + bool" where
  "at_destination self w =
     (case subscript (destination_system_name (parameters self)) of Inl e \<Rightarrow> Inl e | Inr dsys \<Rightarrow>
      case subscript (destination_hex_coord (parameters self)) of Inl e \<Rightarrow> Inl e | Inr dhex \<Rightarrow>
      case subscript (destination_position (parameters self)) of Inl e \<Rightarrow> Inl e | Inr dpos \<Rightarrow>
      if in_system (unit w) = dsys \<and> Some (in_hex (unit w)) = dhex then
        (case dpos of None \<Rightarrow> Inl AttributeError
         | Some dpos_v \<Rightarrow> Inr (distance (position (unit w)) dpos_v < 1 / 100))
      else Inr False)"

definition check_completion_conditions ::
  "Collaborators \<Rightarrow> Order \<Rightarrow> World \<Rightarrow> py_error + (Order \<times> World)" where
  "check_completion_conditions C self w =
     (if status self \<noteq> IN_PROGRESS then Inr (self, w)
      else case order_type self of
        MOVE \<Rightarrow>
          (case subscript (destination_system_name (parameters self)) of Inl e \<Rightarrow> Inl e | Inr dsys \<Rightarrow>
           case subscript (destination_hex_coord (parameters self)) of Inl e \<Rightarrow> Inl e | Inr dhex \<Rightarrow>
           case subscript (destination_position (parameters self)) of Inl e \<Rightarrow> Inl e | Inr dpos \<Rightarrow>
           if sub_orders self \<noteq> [] then Inr (self, w)
           else (case at_destination self w of
                   Inl e \<Rightarrow> Inl e
                 | Inr arrived \<Rightarrow> Inr (if arrived then with_status COMPLETED self else self, w)))
      | TOGGLE_INHIBITOR \<Rightarrow> Inr (self, w)
      | REACH_WAYPOINT \<Rightarrow>
          (case at_destination self w of
             Inl e \<Rightarrow> Inl e
           | Inr arrived \<Rightarrow>
               if arrived
               then Inr (with_status COMPLETED self,
                         w\<lparr>unit := clear_jump_targets (clear_move_target (unit w))\<rparr>)
               else Inr (self, w))
      | PATROL \<Rightarrow> Inr (self, w)
      | ATTACK \<Rightarrow>
          (case goal_reached C self w of
             Inl e \<Rightarrow> Inl e
           | Inr done \<Rightarrow> Inr (if done then with_status COMPLETED self else self, w))
      | COLONIZE \<Rightarrow>
          (case goal_reached C self w of
             Inl e \<Rightarrow> Inl e
           | Inr done \<Rightarrow> Inr (if done then with_status COMPLETED self else self, w))
      | LOAD_COLONISTS \<Rightarrow>
          Inr (if sub_orders self = [] then with_status COMPLETED self else self, w)
      | DEFEND \<Rightarrow> Inr (self, w)
      | CONSTRUCT \<Rightarrow> Inr (self, w))"

definition execute :: "Collaborators \<Rightarrow> Order \<Rightarrow> World \<Rightarrow> py_error + (Order \<times> World)" where
  "execute C self w =
     (if status self \<noteq> PENDING then Inr (self, w)
      else
        let self1 = with_status IN_PROGRESS self in
        case order_type self of
          MOVE \<Rightarrow> run_plan C self1 w
        | REACH_WAYPOINT \<Rightarrow> execute_reach_waypoint self1 w
        | TOGGLE_INHIBITOR \<Rightarrow> execute_toggle_inhibitor self1 w
        | PATROL \<Rightarrow> Inr (self1, w)
        | ATTACK \<Rightarrow> run_plan C self1 w
        | COLONIZE \<Rightarrow> run_plan C self1 w
        | LOAD_COLONISTS \<Rightarrow> run_plan C self1 w
        | CONSTRUCT \<Rightarrow> run_plan C self1 w
        | DEFEND \<Rightarrow> Inr (self1, w))"

text \<open>
  \<^verbatim>\<open>Order.update\<close>. The \<^verbatim>\<open>while\<close> loop over the front of the sub-order queue is
  \<open>update_sub_orders\<close>; it returns the queue that is left, which is non-empty exactly when the
  loop was left by \<^verbatim>\<open>return\<close> with a sub-order still pending or in progress. The recursion of
  \<^verbatim>\<open>update\<close> into a sub-order need not end (a sub-order may add sub-orders when executed), so
  the depth of the recursion is bounded by a counter and \<open>None\<close> is the call that does not
  return.
\<close>

function update_sub_orders ::
    "Collaborators \<Rightarrow> nat \<Rightarrow> Order list \<Rightarrow> World \<Rightarrow> (py_error + (Order list \<times> World)) option"
  and Order_update ::
    "Collaborators \<Rightarrow> nat \<Rightarrow> Order \<Rightarrow> World \<Rightarrow> (py_error + (Order \<times> World)) option" where
  "update_sub_orders C n [] w = Some (Inr ([], w))"
| "update_sub_orders C n (current_sub_order # rest) w =
     (case (if status current_sub_order = PENDING then execute C current_sub_order w
            else Inr (current_sub_order, w)) of
        Inl e \<Rightarrow> Some (Inl e)
      | Inr (sub1, w1) \<Rightarrow>
          (case (if status sub1 = IN_PROGRESS then Order_update C n sub1 w1
                 else Some (Inr (sub1, w1))) of
             None \<Rightarrow> None
           | Some (Inl e) \<Rightarrow> Some (Inl e)
           | Some (Inr (sub2, w2)) \<Rightarrow>
               if status sub2 \<in> {COMPLETED, FAILED, CANCELLED}
               then update_sub_orders C n rest w2
               else Some (Inr (sub2 # rest, w2))))"
| "Order_update C 0 self w = None"
| "Order_update C (Suc n) self w =
     (case update_sub_orders C n (sub_orders self) w of
        None \<Rightarrow> None
      | Some (Inl e) \<Rightarrow> Some (Inl e)
      | Some (Inr (subs, w1)) \<Rightarrow>
          let self1 = with_sub_orders subs self in
          if subs \<noteq> [] then Some (Inr (self1, w1))
          else if status self1 = IN_PROGRESS then Some (check_completion_conditions C self1 w1)
          else Some (Inr (self1, w1)))"
  by pat_completeness auto
termination
  by (relation "measures
        [\<lambda>a. case a of Inl (C, n, subs, w) \<Rightarrow> 2 * n + 1 | Inr (C, n, self, w) \<Rightarrow> 2 * n,
         \<lambda>a. case a of Inl (C, n, subs, w) \<Rightarrow> length subs | Inr (C, n, self, w) \<Rightarrow> 0]")
     auto

section \<open>unit\_components.py: Commander\<close>

record Commander =
  current_order :: "Order option"
  orders_queue :: "Order list"

definition start_next_order ::
  "Collaborators \<Rightarrow> nat \<Rightarrow> Commander \<Rightarrow> World \<Rightarrow> (py_error + (Commander \<times> World)) option" where
  "start_next_order C n self w =
     (if current_order self = None \<and> orders_queue self \<noteq> [] then
        let next_order = hd (orders_queue self);
            self1 = self\<lparr>current_order := Some next_order, orders_queue := tl (orders_queue self)\<rparr>
        in if in_galaxy (unit w) then
             (case execute C next_order w of
                Inl e \<Rightarrow> Some (Inl e)
              | Inr (o1, w1) \<Rightarrow>
                  if status o1 = IN_PROGRESS then
                    (case Order_update C n o1 w1 of
                       None \<Rightarrow> None
                     | Some (Inl e) \<Rightarrow> Some (Inl e)
                     | Some (Inr (o2, w2)) \<Rightarrow> Some (Inr (self1\<lparr>current_order := Some o2\<rparr>, w2)))
                  else Some (Inr (self1\<lparr>current_order := Some o1\<rparr>, w1)))
           else Some (Inr (self1\<lparr>current_order := Some (with_status FAILED next_order)\<rparr>, w))
      else Some (Inr (self, w)))"

definition add_order ::
  "Collaborators \<Rightarrow> nat \<Rightarrow> Commander \<Rightarrow> Order \<Rightarrow> World \<Rightarrow> (py_error + (Commander \<times> World)) option" where
  "add_order C n self order w =
     (let self1 = self\<lparr>orders_queue := orders_queue self @ [order]\<rparr>
      in if current_order self1 = None then start_next_order C n self1 w
         else Some (Inr (self1, w)))"

text \<open>
  \<^verbatim>\<open>cancel_order\<close> removes from the backlog the first order with the given id (the source
  removes the object it has just cancelled).
\<close>

fun cancel_in_queue :: "nat \<Rightarrow> Order list \<Rightarrow> (Order list) option" where
  "cancel_in_queue i [] = None"
| "cancel_in_queue i (order_in_queue # rest) =
     (if order_id order_in_queue = i then Some rest
      else map_option (\<lambda>r. order_in_queue # r) (cancel_in_queue i rest))"

definition cancel_order ::
  "Collaborators \<Rightarrow> nat \<Rightarrow> Commander \<Rightarrow> nat \<Rightarrow> World
     \<Rightarrow> (py_error + (bool \<times> Commander \<times> World)) option" where
  "cancel_order C n self i w =
     (case current_order self of
        Some cur \<Rightarrow>
          if order_id cur = i then
            (case start_next_order C n (self\<lparr>current_order := None\<rparr>) w of
               None \<Rightarrow> None
             | Some (Inl e) \<Rightarrow> Some (Inl e)
             | Some (Inr (self1, w1)) \<Rightarrow> Some (Inr (True, self1, w1)))
          else (case cancel_in_queue i (orders_queue self) of
                  Some q \<Rightarrow> Some (Inr (True, self\<lparr>orders_queue := q\<rparr>, w))
                | None \<Rightarrow> Some (Inr (False, self, w)))
      | None \<Rightarrow>
          (case cancel_in_queue i (orders_queue self) of
             Some q \<Rightarrow> Some (Inr (True, self\<lparr>orders_queue := q\<rparr>, w))
           | None \<Rightarrow> Some (Inr (False, self, w))))"

definition clear_orders :: "Commander \<Rightarrow> World \<Rightarrow> Commander \<times> World" where
  "clear_orders self w =
     (self\<lparr>current_order := None, orders_queue := []\<rparr>,
      w\<lparr>unit := clear_jump_targets (clear_move_target (unit w))\<rparr>)"

definition order_is_finished :: "Order \<Rightarrow> bool" where
  "order_is_finished order \<longleftrightarrow> is_completed order \<or> status order \<in> {FAILED, CANCELLED}"

definition Commander_update ::
  "Collaborators \<Rightarrow> nat \<Rightarrow> Commander \<Rightarrow> World \<Rightarrow> (py_error + (Commander \<times> World)) option" where
  "Commander_update C n self w =
     (case (if current_order self = None then start_next_order C n self w
            else Some (Inr (self, w))) of
        None \<Rightarrow> None
      | Some (Inl e) \<Rightarrow> Some (Inl e)
      | Some (Inr (self1, w1)) \<Rightarrow>
          (case current_order self1 of
             None \<Rightarrow> Some (Inr (self1, w1))
           | Some cur \<Rightarrow>
               (case (if in_galaxy (unit w1) then Order_update C n cur w1
                      else Some (Inr (if status cur = IN_PROGRESS then with_status FAILED cur
                                      else cur, w1))) of
                  None \<Rightarrow> None
                | Some (Inl e) \<Rightarrow> Some (Inl e)
                | Some (Inr (cur1, w2)) \<Rightarrow>
                    if order_is_finished cur1
                    then start_next_order C n (self1\<lparr>current_order := None\<rparr>) w2
                    else Some (Inr (self1\<lparr>current_order := Some cur1\<rparr>, w2)))))"


section \<open>sector\_utils.py, galaxy.py: moving a unit\<close>





section \<open>turn\_processor.py: movement of one unit of the acting player\<close>














section \<open>Predicates and example states used by the theorems\<close>

text \<open>
  At most one of the two jump targets of the hyperdrive is set; some jump target is set; the
  sublight target of the engines is clear. A unit without the component has no target.
\<close>

definition jump_targets_exclusive :: "Unit \<Rightarrow> bool" where
  "jump_targets_exclusive u \<longleftrightarrow>
     (case hyperdrive_component u of
        None \<Rightarrow> True
      | Some hd_comp \<Rightarrow> hex_jump_target hd_comp = None \<or> wormhole_jump_target hd_comp = None)"

definition jump_target_set :: "Unit \<Rightarrow> bool" where
  "jump_target_set u \<longleftrightarrow>
     (case hyperdrive_component u of
        None \<Rightarrow> False
      | Some hd_comp \<Rightarrow> hex_jump_target hd_comp \<noteq> None \<or> wormhole_jump_target hd_comp \<noteq> None)"

definition move_target_clear :: "Unit \<Rightarrow> bool" where
  "move_target_clear u \<longleftrightarrow>
     (case engines_component u of None \<Rightarrow> True | Some en \<Rightarrow> move_target en = None)"

text \<open>
  A small world for the concrete instances: unit 7 of player 1 at the centre of hex \<open>(0, 0)\<close> of
  the system Sol, which has a second hex \<open>(1, 0)\<close>, both without inhibition zones.
\<close>

definition demo_hex :: Hex where
  "demo_hex = \<lparr>hex_units = [7], boundary_circle = Circle (Vector 0 0) 1000,
               static_inhibition_zones = [], dynamic_inhibition_zones = []\<rparr>"

definition demo_system :: StarSystem where
  "demo_system = \<lparr>system_name = ''Sol'', hexes = [(0, 0) \<mapsto> demo_hex, (1, 0) \<mapsto> demo_hex\<lparr>hex_units := []\<rparr>]\<rparr>"

definition demo_galaxy :: Galaxy where
  "demo_galaxy = \<lparr>systems = [''Sol'' \<mapsto> demo_system], wormholes = []\<rparr>"

definition demo_hyperdrive :: Hyperdrive where
  "demo_hyperdrive = \<lparr>drive_type = BASIC, jump_range = 5, hex_jump_target = None,
      wormhole_jump_target = None, jump_status = READY, recharge_time_remaining = 0,
      RECHARGE_DURATION = 3\<rparr>"

definition demo_unit :: Unit where
  "demo_unit = \<lparr>unit_id = 7, unit_owner = 1, in_system = Some ''Sol'', in_hex = (0, 0),
      position = Vector 0 0, in_galaxy = True,
      engines_component = Some \<lparr>speed = 100, move_target = None\<rparr>,
      hyperdrive_component = Some demo_hyperdrive,
      inhibitor_component = Some \<lparr>emitter_radius = 50, is_active = False\<rparr>\<rparr>"

definition demo_world :: World where
  "demo_world = \<lparr>unit = demo_unit, galaxy = demo_galaxy, order_counter = 10\<rparr>"

text \<open>Collaborators that plan nothing: every composite order fails at once.\<close>

definition idle_collaborators :: Collaborators where
  "idle_collaborators = \<lparr>plan = (\<lambda>self w. Inr (FAILED, [], w)), goal_reached = (\<lambda>self w. Inr False)\<rparr>"

definition no_params :: Params where
  "no_params = \<lparr>destination_system_name = Absent, destination_hex_coord = Absent,
      destination_position = Absent, turn_on = Absent\<rparr>"

definition waypoint_params :: "string \<Rightarrow> HexCoord \<Rightarrow> Position \<Rightarrow> Params" where
  "waypoint_params dsys dhex dpos =
     \<lparr>destination_system_name = Val dsys, destination_hex_coord = Val dhex,
      destination_position = Val dpos, turn_on = Absent\<rparr>"


text \<open>
  An order as \<^verbatim>\<open>Order(...)\<close> creates it: PENDING, without sub-orders. The invariant of an order
  tree: below every order, the front sub-order satisfies the invariant and all other queued
  sub-orders are as created.
\<close>

definition fresh :: "Order \<Rightarrow> bool" where
  "fresh order \<longleftrightarrow> status order = PENDING \<and> sub_orders order = []"

fun tree_inv :: "Order \<Rightarrow> bool" where
  "tree_inv (Order i t p s []) = True"
| "tree_inv (Order i t p s (front # rest)) = (tree_inv front \<and> (\<forall>r \<in> set rest. fresh r))"

text \<open>
  The discipline the specification states: in every order of the tree, every queued sub-order
  but the front one is PENDING; and the number of IN\_PROGRESS orders at a given depth.
\<close>

fun queue_discipline :: "Order \<Rightarrow> bool" where
  "queue_discipline (Order i t p s subs) =
     ((\<forall>r \<in> set (tl subs). status r = PENDING) \<and> (\<forall>sub \<in> set subs. queue_discipline sub))"

fun in_progress_at_depth :: "nat \<Rightarrow> Order \<Rightarrow> nat" where
  "in_progress_at_depth 0 (Order i t p s subs) = (if s = IN_PROGRESS then 1 else 0)"
| "in_progress_at_depth (Suc d) (Order i t p s subs) = sum_list (map (in_progress_at_depth d) subs)"

definition queue_inv :: "Order list \<Rightarrow> bool" where
  "queue_inv subs \<longleftrightarrow>
     (case subs of [] \<Rightarrow> True | front # rest \<Rightarrow> tree_inv front \<and> (\<forall>r \<in> set rest. fresh r))"

definition commander_inv :: "Commander \<Rightarrow> bool" where
  "commander_inv cmd \<longleftrightarrow>
     (case current_order cmd of None \<Rightarrow> True | Some order \<Rightarrow> tree_inv order) \<and>
     (\<forall>q \<in> set (orders_queue cmd). fresh q)"

text \<open>
  The states of a Commander between turn-processing steps: it starts empty, and the user
  interface and the turn processor call \<^verbatim>\<open>add_order\<close> with a newly created order,
  \<^verbatim>\<open>cancel_order\<close>, \<^verbatim>\<open>clear_orders\<close> and \<^verbatim>\<open>update\<close>, with the world in any state. A call that
  raises or does not return leads nowhere.
\<close>

inductive reachable :: "Collaborators \<Rightarrow> Commander \<Rightarrow> bool" for C where
  initial: "reachable C \<lparr>current_order = None, orders_queue = []\<rparr>"
| after_add_order:
    "reachable C cmd \<Longrightarrow> fresh order \<Longrightarrow> add_order C n cmd order w = Some (Inr (cmd', w'))
       \<Longrightarrow> reachable C cmd'"
| after_cancel_order:
    "reachable C cmd \<Longrightarrow> cancel_order C n cmd i w = Some (Inr (found, cmd', w'))
       \<Longrightarrow> reachable C cmd'"
| after_clear_orders:
    "reachable C cmd \<Longrightarrow> clear_orders cmd w = (cmd', w') \<Longrightarrow> reachable C cmd'"
| after_update:
    "reachable C cmd \<Longrightarrow> Commander_update C n cmd w = Some (Inr (cmd', w'))
       \<Longrightarrow> reachable C cmd'"

text \<open>
  Collaborators whose route planner answers every composite order with two waypoints in the
  neighbouring hex of the example world.
\<close>

definition demo_collaborators :: Collaborators where
  "demo_collaborators =
     \<lparr>plan = (\<lambda>self w. Inr (IN_PROGRESS,
                [(REACH_WAYPOINT, waypoint_params ''Sol'' (1, 0) (Vector 5 5)),
                 (REACH_WAYPOINT, waypoint_params ''Sol'' (1, 0) (Vector 0 0))], w)),
      goal_reached = (\<lambda>self w. Inr False)\<rparr>"

definition demo_move_order :: Order where
  "demo_move_order = Order 5 MOVE (waypoint_params ''Sol'' (1, 0) (Vector 0 0)) PENDING []"

definition demo_commander :: Commander where
  "demo_commander =
     \<lparr>current_order = Some (Order 5 MOVE (waypoint_params ''Sol'' (1, 0) (Vector 0 0)) IN_PROGRESS
        [Order 10 REACH_WAYPOINT (waypoint_params ''Sol'' (1, 0) (Vector 5 5)) IN_PROGRESS [],
         Order 11 REACH_WAYPOINT (waypoint_params ''Sol'' (1, 0) (Vector 0 0)) PENDING []]),
      orders_queue = []\<rparr>"








section \<open>pathfinding.py: shortest path between star systems\<close>

text \<open>
  The graph is a dictionary from a system name to the list of its neighbours; a dictionary is
  finite. Nodes are of any linearly ordered type (strings in the source): the order is used
  only by the heap, where the entries \<^verbatim>\<open>(distance, name)\<close> compare lexicographically.

  \<^verbatim>\<open>heapq\<close> keeps the list as a binary heap. The algorithm observes only that \<^verbatim>\<open>heappop\<close>
  removes and returns a least entry, so the heap is a list of its entries.
\<close>

type_synonym 'a Graph = "('a, 'a list) fmap"

definition heappush :: "'p list \<Rightarrow> 'p \<Rightarrow> 'p list" where
  "heappush heap item = heap @ [item]"

definition heappop :: "('p::linorder) list \<Rightarrow> 'p \<times> 'p list" where
  "heappop heap = (let item = Min (set heap) in (item, remove1 item heap))"

text \<open>
  The three local variables of the search. A distance is a number or \<^verbatim>\<open>float('inf')\<close>; a
  lookup of a missing key in \<open>distances\<close> or \<open>predecessors\<close> raises \<^verbatim>\<open>KeyError\<close>.
\<close>

record 'a search_state =
  distances :: "'a \<rightharpoonup> enat"
  predecessors :: "'a \<rightharpoonup> 'a option"
  priority_queue :: "(nat \<times> 'a) list"

text \<open>The body of the loop over the neighbours of \<open>current_node\<close>, and the loop.\<close>

definition relax_neighbor :: "nat \<Rightarrow> 'a \<Rightarrow> 'a \<Rightarrow> 'a search_state \<Rightarrow> py_error + 'a search_state" where
  "relax_neighbor current_distance current_node neighbor s =
     (let distance_to_neighbor = current_distance + 1 in
      case distances s neighbor of
        None \<Rightarrow> Inl KeyError
      | Some d \<Rightarrow>
          if enat distance_to_neighbor < d
          then Inr (s\<lparr>distances := (distances s)(neighbor \<mapsto> enat distance_to_neighbor),
                      predecessors := (predecessors s)(neighbor \<mapsto> Some current_node),
                      priority_queue := heappush (priority_queue s) (distance_to_neighbor, neighbor)\<rparr>)
          else Inr s)"

fun relax_neighbors :: "nat \<Rightarrow> 'a \<Rightarrow> 'a list \<Rightarrow> 'a search_state \<Rightarrow> py_error + 'a search_state" where
  "relax_neighbors current_distance current_node [] s = Inr s"
| "relax_neighbors current_distance current_node (neighbor # rest) s =
     (case relax_neighbor current_distance current_node neighbor s of
        Inl e \<Rightarrow> Inl e
      | Inr s1 \<Rightarrow> relax_neighbors current_distance current_node rest s1)"

text \<open>
  The reconstruction of the path follows the predecessors until \<^verbatim>\<open>None\<close>; the loop returns
  the nodes from the end node backwards. \<open>None\<close> is a loop that does not end.
\<close>

partial_function (option) trace_back ::
    "('a \<rightharpoonup> 'a option) \<Rightarrow> 'a option \<Rightarrow> 'a list \<Rightarrow> (py_error + 'a list) option" where
  "trace_back preds node_trace path =
     (case node_trace of
        None \<Rightarrow> Some (Inr path)
      | Some node \<Rightarrow>
          (case preds node of
             None \<Rightarrow> Some (Inl KeyError)
           | Some p \<Rightarrow> trace_back preds p (path @ [node])))"

partial_function (option) dijkstra_loop ::
    "('a::linorder) Graph \<Rightarrow> 'a \<Rightarrow> 'a search_state \<Rightarrow> (py_error + 'a list option) option" where
  "dijkstra_loop graph end_node s =
     (if priority_queue s = [] then Some (Inr None)
      else
        case heappop (priority_queue s) of
          ((current_distance, current_node), heap1) \<Rightarrow>
            let s1 = s\<lparr>priority_queue := heap1\<rparr> in
            case distances s1 current_node of
              None \<Rightarrow> Some (Inl KeyError)
            | Some d \<Rightarrow>
                if enat current_distance > d then dijkstra_loop graph end_node s1
                else if current_node = end_node then
                  (case trace_back (predecessors s1) (Some end_node) [] of
                     None \<Rightarrow> None
                   | Some (Inl e) \<Rightarrow> Some (Inl e)
                   | Some (Inr path) \<Rightarrow> Some (Inr (Some (rev path))))
                else
                  (case fmlookup graph current_node of
                     None \<Rightarrow> dijkstra_loop graph end_node s1
                   | Some neighbors \<Rightarrow>
                       (case relax_neighbors current_distance current_node neighbors s1 of
                          Inl e \<Rightarrow> Some (Inl e)
                        | Inr s2 \<Rightarrow> dijkstra_loop graph end_node s2)))"

definition initial_search_state :: "'a Graph \<Rightarrow> 'a \<Rightarrow> 'a search_state" where
  "initial_search_state graph start_node =
     \<lparr>distances = (\<lambda>node. if node |\<in>| fmdom graph then Some \<infinity> else None)(start_node \<mapsto> 0),
      predecessors = (\<lambda>node. if node |\<in>| fmdom graph then Some None else None),
      priority_queue = [(0, start_node)]\<rparr>"

text \<open>
  The result is the path, or \<^verbatim>\<open>None\<close> for "no path" (\<open>Inr None\<close>), or an exception; the
  outer \<open>None\<close> is a search that does not return.
\<close>

definition find_intersystem_path ::
    "('a::linorder) Graph \<Rightarrow> 'a \<Rightarrow> 'a \<Rightarrow> (py_error + 'a list option) option" where
  "find_intersystem_path graph start_node end_node =
     (if start_node |\<notin>| fmdom graph \<or> end_node |\<notin>| fmdom graph then Some (Inr None)
      else if start_node = end_node then Some (Inr (Some [start_node]))
      else dijkstra_loop graph end_node (initial_search_state graph start_node))"

text \<open>
  What the claim says of the result: a list that begins with the start, ends with the end and
  in which every consecutive pair is an edge of the graph. A graph is well formed, in the
  words of the source, when all nodes listed as neighbours also exist as keys.
\<close>

fun consecutive_edges :: "'a Graph \<Rightarrow> 'a list \<Rightarrow> bool" where
  "consecutive_edges graph (u # v # rest) =
     ((case fmlookup graph u of None \<Rightarrow> False | Some neighbors \<Rightarrow> v \<in> set neighbors)
      \<and> consecutive_edges graph (v # rest))"
| "consecutive_edges graph _ = True"

definition is_path :: "'a Graph \<Rightarrow> 'a \<Rightarrow> 'a \<Rightarrow> 'a list \<Rightarrow> bool" where
  "is_path graph a b p \<longleftrightarrow> p \<noteq> [] \<and> hd p = a \<and> last p = b \<and> consecutive_edges graph p"

definition well_formed :: "'a Graph \<Rightarrow> bool" where
  "well_formed graph \<longleftrightarrow>
     (\<forall>node |\<in>| fmdom graph. \<forall>neighbor \<in> set (the (fmlookup graph node)). neighbor |\<in>| fmdom graph)"


definition triangle_graph :: "string Graph" where
  "triangle_graph = fmap_of_list [(''A'', [''B'']), (''B'', [''C'', ''A'']), (''C'', [''A'']), (''D'', [])]"

text \<open>
  The invariant of the search loop, for a start node and an end node different from it.
  A node is settled when its distance is finite and its entry has left the queue.
\<close>

definition keys_inv :: "'a Graph \<Rightarrow> 'a search_state \<Rightarrow> bool" where
  "keys_inv g s \<longleftrightarrow> dom (distances s) = fmdom' g \<and> dom (predecessors s) = fmdom' g"

definition start_inv :: "'a \<Rightarrow> 'a search_state \<Rightarrow> bool" where
  "start_inv start s \<longleftrightarrow> distances s start = Some 0 \<and> predecessors s start = Some None"

definition pred_inv :: "'a Graph \<Rightarrow> 'a \<Rightarrow> 'a search_state \<Rightarrow> bool" where
  "pred_inv g start s \<longleftrightarrow>
     (\<forall>v d. distances s v = Some (enat d) \<longrightarrow> v \<noteq> start \<longrightarrow>
        (\<exists>u du ns. predecessors s v = Some (Some u) \<and> distances s u = Some (enat du) \<and> du < d \<and>
           fmlookup g u = Some ns \<and> v \<in> set ns))"

definition queue_entries_inv :: "'a search_state \<Rightarrow> bool" where
  "queue_entries_inv s \<longleftrightarrow>
     (\<forall>e \<in> set (priority_queue s). \<exists>d'. distances s (snd e) = Some (enat d') \<and> d' \<le> fst e)"

definition settled_inv :: "'a Graph \<Rightarrow> 'a search_state \<Rightarrow> bool" where
  "settled_inv g s \<longleftrightarrow>
     (\<forall>u du ns. distances s u = Some (enat du) \<longrightarrow> (du, u) \<notin> set (priority_queue s) \<longrightarrow>
        fmlookup g u = Some ns \<longrightarrow>
        (\<forall>v \<in> set ns. \<exists>dv. distances s v = Some (enat dv) \<and> dv \<le> du + 1))"

definition level_inv :: "'a search_state \<Rightarrow> bool" where
  "level_inv s \<longleftrightarrow>
     (\<forall>e \<in> set (priority_queue s). \<forall>v d. distances s v = Some (enat d) \<longrightarrow> d \<le> fst e + 1)"

definition end_open_inv :: "'a \<Rightarrow> 'a search_state \<Rightarrow> bool" where
  "end_open_inv end_node s \<longleftrightarrow>
     (\<forall>d. distances s end_node = Some (enat d) \<longrightarrow> (d, end_node) \<in> set (priority_queue s))"

definition search_inv :: "'a Graph \<Rightarrow> 'a \<Rightarrow> 'a \<Rightarrow> 'a search_state \<Rightarrow> bool" where
  "search_inv g start end_node s \<longleftrightarrow>
     keys_inv g s \<and> start_inv start s \<and> pred_inv g start s \<and> queue_entries_inv s \<and>
     settled_inv g s \<and> level_inv s \<and> end_open_inv end_node s"

definition search_measure :: "'a search_state \<Rightarrow> nat" where
  "search_measure s = card {v. distances s v = Some \<infinity>} + length (priority_queue s)"

text \<open>What the loop over the neighbours of a node at distance \<open>cd\<close> does to the state.\<close>

definition relaxes :: "'a set \<Rightarrow> nat \<Rightarrow> 'a \<Rightarrow> 'a search_state \<Rightarrow> 'a search_state \<Rightarrow> bool" where
  "relaxes N cd cn s s' \<longleftrightarrow>
     dom (distances s') = dom (distances s) \<and> dom (predecessors s') = dom (predecessors s) \<and>
     (\<forall>v. (distances s' v = distances s v \<and> predecessors s' v = predecessors s v) \<or>
          (v \<in> N \<and> distances s v = Some \<infinity> \<and> distances s' v = Some (enat (cd + 1)) \<and>
           predecessors s' v = Some (Some cn) \<and> (cd + 1, v) \<in> set (priority_queue s'))) \<and>
     (\<exists>new. priority_queue s' = priority_queue s @ new \<and>
        (\<forall>e \<in> set new. fst e = cd + 1 \<and> distances s (snd e) = Some \<infinity> \<and>
                        distances s' (snd e) = Some (enat (cd + 1)))) \<and>
     search_measure s' = search_measure s"

section \<open>Circle predicates\<close>

lemma distance_sq_nonneg: "0 \<le> distance_sq p q"
  by (simp add: distance_sq_def)

lemma distance_le_iff:
  assumes "0 \<le> r"
  shows "distance p q \<le> r \<longleftrightarrow> distance_sq p q \<le> r\<^sup>2"
proof -
  have "sqrt (distance_sq p q) \<le> r \<longleftrightarrow> sqrt (distance_sq p q) \<le> sqrt (r\<^sup>2)"
    using assms by simp
  also have "\<dots> \<longleftrightarrow> distance_sq p q \<le> r\<^sup>2"
    by (rule real_sqrt_le_iff)
  finally show ?thesis by (simp add: distance_def)
qed

lemma distance_less_iff:
  assumes "0 \<le> r"
  shows "distance p q < r \<longleftrightarrow> distance_sq p q < r\<^sup>2"
proof -
  have "sqrt (distance_sq p q) < r \<longleftrightarrow> sqrt (distance_sq p q) < sqrt (r\<^sup>2)"
    using assms by simp
  also have "\<dots> \<longleftrightarrow> distance_sq p q < r\<^sup>2"
    by (rule real_sqrt_less_iff)
  finally show ?thesis by (simp add: distance_def)
qed

lemma distance_nonneg: "0 \<le> distance p q"
  by (simp add: distance_def distance_sq_nonneg)

text \<open>
  C9, as stated, fails for a circle of negative radius (the dataclass accepts any number):
  the source compares squares, so the point at the centre of a circle of radius \<open>-1\<close> is
  reported inside although its distance \<open>0\<close> is not \<open>\<le> -1\<close>.
\<close>

theorem C9_negative_radius_counterexample:
  "is_point_in_circle (Vector 0 0) (Circle (Vector 0 0) (- 1)) \<and>
   \<not> distance (Vector 0 0) (center (Circle (Vector 0 0) (- 1))) \<le> radius (Circle (Vector 0 0) (- 1))"
  by (simp add: is_point_in_circle_def distance_def distance_sq_def)

text \<open>
  C9 (amended): for a circle of non-negative radius, \<open>is_point_in_circle\<close> is true exactly when
  the distance from the point to the centre is at most the radius; for two circles whose radii
  have a non-negative sum, \<open>do_circles_intersect\<close> is true exactly when the distance between the
  centres is strictly less than the sum of the radii. For every circle, a point at exactly
  radius distance is inside (inclusive boundary), and two circles at exactly radii-sum distance
  do not intersect.
\<close>

theorem C9_circle_predicates:
  "(0 \<le> radius c \<longrightarrow> (is_point_in_circle p c \<longleftrightarrow> distance p (center c) \<le> radius c)) \<and>
   (0 \<le> radius c1 + radius c2 \<longrightarrow>
      (do_circles_intersect c1 c2 \<longleftrightarrow> distance (center c1) (center c2) < radius c1 + radius c2)) \<and>
   (distance p (center c) = radius c \<longrightarrow> is_point_in_circle p c) \<and>
   (distance (center c1) (center c2) = radius c1 + radius c2 \<longrightarrow> \<not> do_circles_intersect c1 c2)"
proof (intro conjI impI)
  assume "0 \<le> radius c"
  then show "is_point_in_circle p c \<longleftrightarrow> distance p (center c) \<le> radius c"
    by (simp add: is_point_in_circle_def distance_le_iff)
next
  assume "0 \<le> radius c1 + radius c2"
  then show "do_circles_intersect c1 c2 \<longleftrightarrow> distance (center c1) (center c2) < radius c1 + radius c2"
    by (simp add: do_circles_intersect_def distance_less_iff)
next
  assume eq: "distance p (center c) = radius c"
  then have "0 \<le> radius c" using distance_nonneg [of p "center c"] by simp
  then show "is_point_in_circle p c"
    using eq by (simp add: is_point_in_circle_def distance_le_iff [symmetric])
next
  assume eq: "distance (center c1) (center c2) = radius c1 + radius c2"
  then have "0 \<le> radius c1 + radius c2" using distance_nonneg [of "center c1" "center c2"] by simp
  then show "\<not> do_circles_intersect c1 c2"
    using eq by (simp add: do_circles_intersect_def distance_less_iff [symmetric])
qed

lemma distance_3_4: "distance (Vector 3 4) (Vector 0 0) = 5"
proof -
  have "distance (Vector 3 4) (Vector 0 0) = sqrt (5\<^sup>2)"
    by (simp add: distance_def distance_sq_def)
  then show ?thesis by simp
qed

lemma distance_0_5: "distance (Vector 0 0) (Vector 5 0) = 5"
proof -
  have "distance (Vector 0 0) (Vector 5 0) = sqrt (5\<^sup>2)"
    by (simp add: distance_def distance_sq_def)
  then show ?thesis by simp
qed

theorem C9_circle_predicates_witness:
  "0 \<le> radius (Circle (Vector 0 0) 5) \<and>
   distance (Vector 3 4) (center (Circle (Vector 0 0) 5)) = radius (Circle (Vector 0 0) 5) \<and>
   is_point_in_circle (Vector 3 4) (Circle (Vector 0 0) 5) \<and>
   0 \<le> radius (Circle (Vector 0 0) 2) + radius (Circle (Vector 5 0) 3) \<and>
   distance (center (Circle (Vector 0 0) 2)) (center (Circle (Vector 5 0) 3))
     = radius (Circle (Vector 0 0) 2) + radius (Circle (Vector 5 0) 3) \<and>
   \<not> do_circles_intersect (Circle (Vector 0 0) 2) (Circle (Vector 5 0) 3)"
  using C9_circle_predicates [of "Circle (Vector 0 0) 5" "Vector 3 4"
      "Circle (Vector 0 0) 2" "Circle (Vector 5 0) 3"]
  by (simp add: distance_3_4 distance_0_5)

section \<open>Hex jump waypoints\<close>

lemma waypoint_step_nonempty: "waypoint_step a b n path i \<noteq> []"
  by (simp add: waypoint_step_def Let_def)

lemma find_hex_jump_path_ends_at_destination:
  assumes "find_hex_jump_path start_hex end_hex max_range = Inr path"
  shows "path \<noteq> [] \<and> last path = end_hex"
  using assms by (auto simp: find_hex_jump_path_def Let_def split: if_splits)

text \<open>
  C1: the claim repeats the docstring of \<^verbatim>\<open>find_hex_jump_path\<close>, and the code breaks it. From
  \<open>(0, 0)\<close> to \<open>(12, 5)\<close> with range \<open>2\<close> the distance \<open>17\<close> is cut into \<open>9\<close> segments of
  length \<open>17/9\<close>; rounding moves the fourth waypoint back to \<open>(5, 2)\<close> and the fifth forward to
  \<open>(7, 3)\<close>, which are at hex-distance \<open>3\<close>. No rounding tie occurs on this input, so the
  floating-point computation of the source takes the same branches.
\<close>

theorem C1_jump_exceeds_range:
  "find_hex_jump_path (0, 0) (12, 5) 2 =
     Inr [(1, 1), (3, 1), (4, 2), (5, 2), (7, 3), (8, 3), (9, 4), (11, 4), (12, 5)] \<and>
   hex_distance (5, 2) (7, 3) = 3 \<and>
   \<not> jumps_within_range (0, 0)
       [(1, 1), (3, 1), (4, 2), (5, 2), (7, 3), (8, 3), (9, 4), (11, 4), (12, 5)] 2"
  by code_simp

section \<open>Colony cargo transfer\<close>

text \<open>
  C10: loading and unloading conserve \<open>planet.population + population_cargo\<close>, and a call that
  returns \<open>False\<close> leaves both the planet's population and the cargo unchanged. The amount
  need not even be non-negative. (Populations are floats in the source; the sum is exact over
  the reals.)
\<close>

theorem C10_cargo_transfer_conserves:
  "(load_population self planet amount = (ok, planet', self') \<longrightarrow>
      population planet' + of_int (population_cargo self')
        = population planet + of_int (population_cargo self) \<and>
      (\<not> ok \<longrightarrow> population planet' = population planet \<and>
                population_cargo self' = population_cargo self)) \<and>
   (unload_population self planet amount = (ok, planet', self') \<longrightarrow>
      population planet' + of_int (population_cargo self')
        = population planet + of_int (population_cargo self) \<and>
      (\<not> ok \<longrightarrow> population planet' = population planet \<and>
                population_cargo self' = population_cargo self))"
  by (auto simp: load_population_def unload_population_def Let_def split: if_splits)

theorem C10_cargo_transfer_conserves_witness:
  "load_population \<lparr>colony_unit_owner = 1, population_cargo = 10, max_cargo = 100\<rparr>
       \<lparr>planet_owner = Some 1, population = 80\<rparr> 50
     = (True, \<lparr>planet_owner = Some 1, population = 30\<rparr>,
        \<lparr>colony_unit_owner = 1, population_cargo = 60, max_cargo = 100\<rparr>) \<and>
   (30::real) + of_int 60 = 80 + of_int 10 \<and>
   unload_population \<lparr>colony_unit_owner = 1, population_cargo = 10, max_cargo = 100\<rparr>
       \<lparr>planet_owner = Some 2, population = 80\<rparr> 5
     = (False, \<lparr>planet_owner = Some 2, population = 80\<rparr>,
        \<lparr>colony_unit_owner = 1, population_cargo = 10, max_cargo = 100\<rparr>)"
  using C10_cargo_transfer_conserves
    [of "\<lparr>colony_unit_owner = 1, population_cargo = 10, max_cargo = 100\<rparr>"
        "\<lparr>planet_owner = Some 1, population = 80\<rparr>" 50 True
        "\<lparr>planet_owner = Some 1, population = 30\<rparr>"
        "\<lparr>colony_unit_owner = 1, population_cargo = 60, max_cargo = 100\<rparr>"]
  by (simp add: load_population_def unload_population_def)

section \<open>Orders: selectors\<close>

lemma status_with_status [simp]: "status (with_status st self) = st"
  by (cases self) simp

lemma with_status_sel [simp]:
  "order_id (with_status st self) = order_id self"
  "order_type (with_status st self) = order_type self"
  "parameters (with_status st self) = parameters self"
  "sub_orders (with_status st self) = sub_orders self"
  by (cases self; simp)+

lemma with_sub_orders_sel [simp]:
  "order_id (with_sub_orders subs self) = order_id self"
  "order_type (with_sub_orders subs self) = order_type self"
  "parameters (with_sub_orders subs self) = parameters self"
  "status (with_sub_orders subs self) = status self"
  "sub_orders (with_sub_orders subs self) = subs"
  by (cases self; simp)+

section \<open>TOGGLE\_INHIBITOR\<close>

lemma execute_toggle_inhibitor_on:
  assumes "turn_on (parameters self) = Val True"
    and "inhibitor_component (unit w) = Some inhibitor"
    and "hex_at (galaxy w) (in_system (unit w)) (in_hex (unit w)) = Inr current_hex"
  shows "execute_toggle_inhibitor self w =
     (if \<not> is_circle_contained (Circle (position (unit w)) (emitter_radius inhibitor)) (boundary_circle current_hex)
         \<or> (\<exists>zone \<in> set (get_all_inhibition_zones current_hex).
               do_circles_intersect (Circle (position (unit w)) (emitter_radius inhibitor)) zone)
      then Inr (with_status FAILED self, w)
      else Inr (with_status COMPLETED self,
             w\<lparr>unit := (unit w)\<lparr>inhibitor_component := Some (inhibitor\<lparr>is_active := True\<rparr>)\<rparr>,
               galaxy := put_hex (the (in_system (unit w))) (in_hex (unit w))
                  (current_hex\<lparr>dynamic_inhibition_zones :=
                     dict_set (unit_id (unit w)) (Circle (position (unit w)) (emitter_radius inhibitor))
                       (dynamic_inhibition_zones current_hex)\<rparr>) (galaxy w)\<rparr>))"
  using assms by (simp add: execute_toggle_inhibitor_def Let_def turn_on_field_def)

lemma hex_at_put_hex:
  assumes "hex_at g (Some n) coord = Inr h"
  shows "hex_at (put_hex n coord h' g) (Some n) coord = Inr h'"
  using assms by (auto simp: hex_at_def put_hex_def split: option.splits)

lemma map_of_dict_set: "map_of (dict_set k v d) k = Some v"
  by (simp add: dict_set_def update_conv')

text \<open>
  C7: \<^verbatim>\<open>execute()\<close> of a pending TOGGLE\_INHIBITOR order with \<^verbatim>\<open>turn_on\<close> true, for a unit that
  carries an emitter and stands in a hex of the galaxy, returns with the order terminal. If the
  proposed circle (the unit's position, the emitter's radius) is not contained in the boundary
  circle of the hex or intersects one of its inhibition zones, the order is FAILED and the world
  (emitter flag and zone map included) is unchanged; otherwise the order is COMPLETED, the
  emitter is active and the dynamic zone map of the hex binds the unit's id to the circle.
\<close>

theorem C7_toggle_inhibitor_atomic:
  assumes "status self = PENDING"
    and "order_type self = TOGGLE_INHIBITOR"
    and "turn_on (parameters self) = Val True"
    and "inhibitor_component (unit w) = Some inhibitor"
    and "hex_at (galaxy w) (in_system (unit w)) (in_hex (unit w)) = Inr current_hex"
  shows "\<exists>self' w'. execute C self w = Inr (self', w') \<and>
           status self' \<in> {COMPLETED, FAILED} \<and>
           (if \<not> is_circle_contained (Circle (position (unit w)) (emitter_radius inhibitor))
                   (boundary_circle current_hex)
               \<or> (\<exists>zone \<in> set (get_all_inhibition_zones current_hex).
                     do_circles_intersect (Circle (position (unit w)) (emitter_radius inhibitor)) zone)
            then status self' = FAILED \<and> w' = w
            else status self' = COMPLETED \<and>
                 inhibitor_component (unit w') = Some (inhibitor\<lparr>is_active := True\<rparr>) \<and>
                 (\<exists>hex'. hex_at (galaxy w') (in_system (unit w')) (in_hex (unit w')) = Inr hex' \<and>
                    dynamic_inhibition_zones hex' =
                      dict_set (unit_id (unit w)) (Circle (position (unit w)) (emitter_radius inhibitor))
                        (dynamic_inhibition_zones current_hex) \<and>
                    map_of (dynamic_inhibition_zones hex') (unit_id (unit w)) =
                      Some (Circle (position (unit w)) (emitter_radius inhibitor))))"
proof -
  obtain n where n: "in_system (unit w) = Some n"
    using assms(5) by (cases "in_system (unit w)") (auto simp: hex_at_def)
  have ex: "execute C self w = execute_toggle_inhibitor (with_status IN_PROGRESS self) w"
    using assms(1,2) by (simp add: execute_def)
  have tog: "turn_on (parameters (with_status IN_PROGRESS self)) = Val True"
    using assms(3) by simp
  show ?thesis
    unfolding ex execute_toggle_inhibitor_on [OF tog assms(4) assms(5)]
    using assms(5) n
    by (auto simp: hex_at_put_hex map_of_dict_set)
qed

lemma sqrt0: "distance (Vector 0 0) (Vector 0 0) = 0"
  by (simp add: distance_def distance_sq_def)

theorem C7_toggle_inhibitor_atomic_witness:
  "status (Order 3 TOGGLE_INHIBITOR (no_params\<lparr>turn_on := Val True\<rparr>) PENDING []) = PENDING \<and>
   hex_at (galaxy demo_world) (in_system (unit demo_world)) (in_hex (unit demo_world)) = Inr demo_hex \<and>
   is_circle_contained (Circle (position (unit demo_world)) 50) (boundary_circle demo_hex) \<and>
   (\<exists>self' w'. execute idle_collaborators (Order 3 TOGGLE_INHIBITOR (no_params\<lparr>turn_on := Val True\<rparr>) PENDING []) demo_world
        = Inr (self', w') \<and> status self' = COMPLETED \<and>
      inhibitor_component (unit w') = Some \<lparr>emitter_radius = 50, is_active = True\<rparr>)"
proof -
  have h: "hex_at (galaxy demo_world) (in_system (unit demo_world)) (in_hex (unit demo_world)) = Inr demo_hex"
    by (simp add: hex_at_def demo_world_def demo_unit_def demo_galaxy_def demo_system_def)
  have c: "is_circle_contained (Circle (position (unit demo_world)) 50) (boundary_circle demo_hex)"
    by (simp add: is_circle_contained_def demo_world_def demo_unit_def demo_hex_def sqrt0)
  have z: "get_all_inhibition_zones demo_hex = []"
    by (simp add: get_all_inhibition_zones_def demo_hex_def dict_values_def)
  have i: "inhibitor_component (unit demo_world) = Some \<lparr>emitter_radius = 50, is_active = False\<rparr>"
    by (simp add: demo_world_def demo_unit_def)
  show ?thesis
    using C7_toggle_inhibitor_atomic [of "Order 3 TOGGLE_INHIBITOR (no_params\<lparr>turn_on := Val True\<rparr>) PENDING []"
        demo_world "\<lparr>emitter_radius = 50, is_active = False\<rparr>" demo_hex idle_collaborators] h c z i
    by (auto simp: no_params_def)
qed

section \<open>Jump targets\<close>

lemma clear_targets_simps [simp]:
  "hyperdrive_component (clear_move_target u) = hyperdrive_component u"
  "engines_component (clear_jump_targets u) = engines_component u"
  "move_target_clear (clear_move_target u)"
  "jump_targets_exclusive (clear_jump_targets u)"
  "\<not> jump_target_set (clear_jump_targets u)"
  by (auto simp: clear_move_target_def clear_jump_targets_def move_target_clear_def
        jump_targets_exclusive_def jump_target_set_def split: option.splits)

lemma clear_move_target_excl [simp]:
  "jump_targets_exclusive (clear_move_target u) = jump_targets_exclusive u"
  "jump_target_set (clear_move_target u) = jump_target_set u"
  "move_target_clear (clear_jump_targets u) = move_target_clear u"
  by (simp_all add: jump_targets_exclusive_def jump_target_set_def move_target_clear_def)









section \<open>Turn processing of a charging hyperdrive\<close>

















section \<open>The order tree under execute and update\<close>

lemma tree_inv_queue:
  "tree_inv order \<longleftrightarrow>
     (case sub_orders order of [] \<Rightarrow> True
      | front # rest \<Rightarrow> tree_inv front \<and> (\<forall>r \<in> set rest. fresh r))"
  by (cases order; cases "sub_orders order") auto

lemma fresh_tree_inv: "fresh order \<Longrightarrow> tree_inv order"
  by (simp add: tree_inv_queue fresh_def)

lemma tree_inv_with_status [simp]: "tree_inv (with_status st order) = tree_inv order"
  by (simp add: tree_inv_queue [of "with_status st order"] tree_inv_queue [of order])

lemma tree_inv_with_sub_orders:
  "tree_inv (with_sub_orders subs order) \<longleftrightarrow>
     (case subs of [] \<Rightarrow> True | front # rest \<Rightarrow> tree_inv front \<and> (\<forall>r \<in> set rest. fresh r))"
  by (cases order; cases subs) auto

lemma tree_inv_add_sub_order:
  assumes "tree_inv self" and "fresh sub"
  shows "tree_inv (add_sub_order self sub)"
  using assms
  by (cases "sub_orders self")
     (auto simp: tree_inv_with_sub_orders tree_inv_queue [of self] add_sub_order_def fresh_tree_inv)

lemma fresh_new_order: "new_order t p w = (sub, w1) \<Longrightarrow> fresh sub"
  by (auto simp: new_order_def fresh_def)

lemma add_sub_order_sel [simp]:
  "order_id (add_sub_order self sub) = order_id self"
  "order_type (add_sub_order self sub) = order_type self"
  "parameters (add_sub_order self sub) = parameters self"
  "status (add_sub_order self sub) = status self"
  by (simp_all add: add_sub_order_def)

lemma add_new_sub_orders_id:
  "add_new_sub_orders specs self w = (self', w') \<Longrightarrow>
     order_id self' = order_id self \<and> status self' = status self"
proof (induction specs arbitrary: self w)
  case Nil
  then show ?case by simp
next
  case (Cons spec specs)
  obtain t p where spec: "spec = (t, p)" by (cases spec)
  obtain sub w1 where n: "new_order t p w = (sub, w1)" by (cases "new_order t p w")
  from Cons.prems spec n
  have "add_new_sub_orders specs (add_sub_order self sub) w1 = (self', w')" by simp
  from Cons.IH [OF this] show ?case by simp
qed

lemma add_new_sub_orders_inv:
  assumes "add_new_sub_orders specs self w = (self', w')" and "tree_inv self"
  shows "tree_inv self'"
  using assms
proof (induction specs arbitrary: self w)
  case Nil
  then show ?case by simp
next
  case (Cons spec specs)
  obtain t p where spec: "spec = (t, p)" by (cases spec)
  obtain sub w1 where n: "new_order t p w = (sub, w1)" by (cases "new_order t p w")
  from Cons.prems spec n
  have "add_new_sub_orders specs (add_sub_order self sub) w1 = (self', w')" by simp
  moreover have "tree_inv (add_sub_order self sub)"
    using Cons.prems(2) fresh_new_order [OF n] by (rule tree_inv_add_sub_order)
  ultimately show ?case using Cons.IH by blast
qed

lemma execute_reach_waypoint_order:
  assumes "execute_reach_waypoint self w = Inr (self', w')"
  shows "\<exists>st. self' = with_status st self"
proof -
  have "self = with_status (status self) self" by (cases self) simp
  then show ?thesis
    using assms
    by (auto simp: execute_reach_waypoint_def Let_def split: sum.splits option.splits if_splits)
qed

lemma execute_toggle_inhibitor_order:
  assumes "execute_toggle_inhibitor self w = Inr (self', w')"
  shows "\<exists>st. self' = with_status st self"
  using assms
  by (auto simp: execute_toggle_inhibitor_def Let_def split: sum.splits option.splits if_splits)

lemma with_status_twice [simp]: "with_status a (with_status b order) = with_status a order"
  by (cases order) simp

lemma run_plan_inv:
  assumes "run_plan C self w = Inr (self', w')"
  shows "order_id self' = order_id self \<and> (tree_inv self \<longrightarrow> tree_inv self')"
proof -
  obtain st specs w1 where p: "plan C self w = Inr (st, specs, w1)"
    and a: "add_new_sub_orders specs (with_status st self) w1 = (self', w')"
    using assms(1) by (auto simp: run_plan_def split: sum.splits)
  show ?thesis
    using add_new_sub_orders_inv [OF a] add_new_sub_orders_id [OF a] by simp
qed

lemma execute_inv:
  assumes "execute C self w = Inr (self', w')"
  shows "order_id self' = order_id self \<and> (tree_inv self \<longrightarrow> tree_inv self')"
proof (cases "status self = PENDING")
  case False
  then show ?thesis using assms by (simp add: execute_def)
next
  case True
  have r: "run_plan C (with_status IN_PROGRESS self) w = Inr (self', w') \<Longrightarrow> ?thesis"
    using run_plan_inv [of C "with_status IN_PROGRESS self" w self' w'] by simp
  show ?thesis
  proof (cases "order_type self")
    case REACH_WAYPOINT
    then have "execute_reach_waypoint (with_status IN_PROGRESS self) w = Inr (self', w')"
      using assms(1) True by (simp add: execute_def)
    from execute_reach_waypoint_order [OF this] show ?thesis by auto
  next
    case TOGGLE_INHIBITOR
    then have "execute_toggle_inhibitor (with_status IN_PROGRESS self) w = Inr (self', w')"
      using assms(1) True by (simp add: execute_def)
    from execute_toggle_inhibitor_order [OF this] show ?thesis by auto
  next
    case MOVE
    then show ?thesis using assms(1) True r by (simp add: execute_def)
  next
    case ATTACK
    then show ?thesis using assms(1) True r by (simp add: execute_def)
  next
    case COLONIZE
    then show ?thesis using assms(1) True r by (simp add: execute_def)
  next
    case LOAD_COLONISTS
    then show ?thesis using assms(1) True r by (simp add: execute_def)
  next
    case CONSTRUCT
    then show ?thesis using assms(1) True r by (simp add: execute_def)
  next
    case PATROL
    then show ?thesis using assms True by (auto simp: execute_def)
  next
    case DEFEND
    then show ?thesis using assms True by (auto simp: execute_def)
  qed
qed

lemma check_completion_order:
  assumes "check_completion_conditions C self w = Inr (self', w')"
  shows "self' = self \<or> self' = with_status COMPLETED self"
  using assms
  by (auto simp: check_completion_conditions_def split: sum.splits if_splits OrderType.splits)

lemma check_completion_inv:
  assumes "check_completion_conditions C self w = Inr (self', w')"
  shows "order_id self' = order_id self \<and> (tree_inv self \<longrightarrow> tree_inv self')"
  using check_completion_order [OF assms(1)] by auto

lemma Order_update_id:
  assumes "Order_update C n self w = Some (Inr (self', w'))"
  shows "order_id self' = order_id self"
proof (cases n)
  case 0
  then show ?thesis using assms by simp
next
  case (Suc m)
  then show ?thesis
    using assms check_completion_inv
    by (fastforce simp: Let_def split: option.splits sum.splits if_splits)
qed

lemma tree_inv_queue_inv: "tree_inv order = queue_inv (sub_orders order)"
  by (simp add: tree_inv_queue queue_inv_def)

lemma queue_inv_tail: "queue_inv (front # rest) \<Longrightarrow> queue_inv rest"
  by (cases rest) (auto simp: queue_inv_def fresh_tree_inv)

lemma update_inv:
  "update_sub_orders C n subs w = Some (Inr (subs', w')) \<Longrightarrow> queue_inv subs \<Longrightarrow> queue_inv subs'"
  "Order_update C n self w = Some (Inr (self', w')) \<Longrightarrow> tree_inv self \<Longrightarrow> tree_inv self'"
proof (induction C n subs w and C n self w arbitrary: subs' w' and self' w'
       rule: update_sub_orders_Order_update.induct)
  case (1 C n w)
  then show ?case by simp
next
  case (2 C n current_sub_order rest w)
  let ?e = "if status current_sub_order = PENDING then execute C current_sub_order w
            else Inr (current_sub_order, w)"
  from "2.prems"(1) obtain sub1 w1 where e: "?e = Inr (sub1, w1)"
    by (auto split: sum.splits)
  have t0: "tree_inv current_sub_order" and r: "\<forall>r \<in> set rest. fresh r"
    using "2.prems"(2) by (auto simp: queue_inv_def)
  have t1: "tree_inv sub1"
    using e t0 execute_inv [of C current_sub_order w sub1 w1] by (auto split: if_splits)
  let ?u = "if status sub1 = IN_PROGRESS then Order_update C n sub1 w1 else Some (Inr (sub1, w1))"
  from "2.prems"(1) e obtain sub2 w2 where u: "?u = Some (Inr (sub2, w2))"
    by (auto split: option.splits sum.splits)
  have t2: "tree_inv sub2"
  proof (cases "status sub1 = IN_PROGRESS")
    case True
    then have "Order_update C n sub1 w1 = Some (Inr (sub2, w2))" using u by simp
    from "2.IH"(1) [OF e refl True this t1] show ?thesis by simp
  next
    case False
    then show ?thesis using u t1 by simp
  qed
  show ?case
  proof (cases "status sub2 \<in> {COMPLETED, FAILED, CANCELLED}")
    case True
    then have "update_sub_orders C n rest w2 = Some (Inr (subs', w'))"
      using "2.prems"(1) e u by (simp split: if_splits)
    moreover have "queue_inv rest" using "2.prems"(2) by (rule queue_inv_tail)
    ultimately show ?thesis using "2.IH"(2) [OF e refl u] True by auto
  next
    case False
    then have "subs' = sub2 # rest"
      using "2.prems"(1) e u by (simp split: if_splits)
    then show ?thesis using t2 r by (simp add: queue_inv_def)
  qed
next
  case (3 C self w)
  then show ?case by simp
next
  case (4 C n self w)
  from "4.prems"(1) obtain subs w1 where s: "update_sub_orders C n (sub_orders self) w = Some (Inr (subs, w1))"
    by (auto split: option.splits sum.splits)
  have q: "queue_inv subs"
    using "4.IH" [OF s] "4.prems"(2) by (simp add: tree_inv_queue_inv)
  have t: "tree_inv (with_sub_orders subs self)"
    using q by (simp add: tree_inv_queue_inv)
  show ?case
  proof (cases "subs \<noteq> [] \<or> status self \<noteq> IN_PROGRESS")
    case True
    then have "self' = with_sub_orders subs self"
      using "4.prems"(1) s by (auto simp: Let_def split: if_splits)
    then show ?thesis using t by simp
  next
    case False
    then have "check_completion_conditions C (with_sub_orders subs self) w1 = Inr (self', w')"
      using "4.prems"(1) s by (auto simp: Let_def split: if_splits)
    from check_completion_inv [OF this] t show ?thesis by simp
  qed
qed

lemma start_next_order_result:
  assumes "start_next_order C n cmd w = Some (Inr (cmd', w'))"
  shows "(current_order cmd \<noteq> None \<or> orders_queue cmd = [] \<longrightarrow> cmd' = cmd \<and> w' = w) \<and>
         (current_order cmd = None \<and> orders_queue cmd \<noteq> [] \<longrightarrow>
            (\<exists>order'. current_order cmd' = Some order' \<and>
               order_id order' = order_id (hd (orders_queue cmd)) \<and>
               orders_queue cmd' = tl (orders_queue cmd) \<and>
               (tree_inv (hd (orders_queue cmd)) \<longrightarrow> tree_inv order')))"
proof (cases "current_order cmd = None \<and> orders_queue cmd \<noteq> []")
  case False
  then show ?thesis using assms by (auto simp: start_next_order_def)
next
  case True
  let ?next = "hd (orders_queue cmd)"
  show ?thesis
  proof (cases "in_galaxy (unit w)")
    case False
    then show ?thesis using assms True by (auto simp: start_next_order_def Let_def)
  next
    case g: True
    from assms True g obtain o1 w1 where e: "execute C ?next w = Inr (o1, w1)"
      by (auto simp: start_next_order_def Let_def split: sum.splits)
    note e1 = execute_inv [OF e]
    show ?thesis
    proof (cases "status o1 = IN_PROGRESS")
      case False
      then show ?thesis using assms True g e e1 by (auto simp: start_next_order_def Let_def)
    next
      case ip: True
      from assms True g e ip obtain o2 w2 where u: "Order_update C n o1 w1 = Some (Inr (o2, w2))"
        by (auto simp: start_next_order_def Let_def split: option.splits sum.splits)
      note u1 = update_inv(2) [OF u] Order_update_id [OF u]
      show ?thesis using assms True g e e1 ip u u1 by (auto simp: start_next_order_def Let_def)
    qed
  qed
qed

lemma start_next_order_inv:
  assumes "start_next_order C n cmd w = Some (Inr (cmd', w'))" and "commander_inv cmd"
  shows "commander_inv cmd'"
proof (cases "current_order cmd = None \<and> orders_queue cmd \<noteq> []")
  case False
  then show ?thesis using start_next_order_result [OF assms(1)] assms(2) by auto
next
  case True
  then obtain q rest where q: "orders_queue cmd = q # rest" by (cases "orders_queue cmd") auto
  have "fresh q" "\<forall>r \<in> set rest. fresh r" using assms(2) q by (auto simp: commander_inv_def)
  then show ?thesis
    using start_next_order_result [OF assms(1)] True q
    by (auto simp: commander_inv_def fresh_tree_inv)
qed

lemma add_order_inv:
  assumes "add_order C n cmd order w = Some (Inr (cmd', w'))" and "commander_inv cmd" and "fresh order"
  shows "commander_inv cmd'"
proof -
  have i: "commander_inv (cmd\<lparr>orders_queue := orders_queue cmd @ [order]\<rparr>)"
    using assms(2,3) by (auto simp: commander_inv_def)
  show ?thesis
  proof (cases "current_order cmd = None")
    case True
    then have "start_next_order C n (cmd\<lparr>orders_queue := orders_queue cmd @ [order]\<rparr>) w = Some (Inr (cmd', w'))"
      using assms(1) by (simp add: add_order_def)
    from start_next_order_inv [OF this i] show ?thesis .
  next
    case False
    then show ?thesis using assms(1) i by (auto simp: add_order_def)
  qed
qed

lemma cancel_in_queue_subset:
  "cancel_in_queue i q = Some q' \<Longrightarrow> set q' \<subseteq> set q"
  by (induction q arbitrary: q') (auto split: if_splits)

lemma cancel_order_inv:
  assumes "cancel_order C n cmd i w = Some (Inr (found, cmd', w'))" and "commander_inv cmd"
  shows "commander_inv cmd'"
proof -
  have q: "\<And>q'. cancel_in_queue i (orders_queue cmd) = Some q' \<Longrightarrow> commander_inv (cmd\<lparr>orders_queue := q'\<rparr>)"
    using assms(2) cancel_in_queue_subset [of i "orders_queue cmd"]
    by (auto simp: commander_inv_def)
  have n: "commander_inv (cmd\<lparr>current_order := None\<rparr>)"
    using assms(2) by (simp add: commander_inv_def)
  show ?thesis
    using assms q start_next_order_inv [OF _ n]
    by (auto simp: cancel_order_def split: option.splits if_splits sum.splits)
qed

lemma clear_orders_inv: "commander_inv (fst (clear_orders cmd w))"
  by (simp add: clear_orders_def commander_inv_def)

lemma Commander_update_inv:
  assumes "Commander_update C n cmd w = Some (Inr (cmd', w'))" and "commander_inv cmd"
  shows "commander_inv cmd'"
proof -
  let ?s = "if current_order cmd = None then start_next_order C n cmd w else Some (Inr (cmd, w))"
  from assms(1) obtain cmd1 w1 where s: "?s = Some (Inr (cmd1, w1))"
    by (auto simp: Commander_update_def split: option.splits sum.splits)
  have i1: "commander_inv cmd1"
    using s assms(2) start_next_order_inv [of C n cmd w cmd1 w1] by (auto split: if_splits)
  show ?thesis
  proof (cases "current_order cmd1")
    case None
    then show ?thesis using assms(1) s i1 by (simp add: Commander_update_def)
  next
    case (Some cur)
    let ?u = "if in_galaxy (unit w1) then Order_update C n cur w1
              else Some (Inr (if status cur = IN_PROGRESS then with_status FAILED cur else cur, w1))"
    from assms(1) s Some obtain cur1 w2 where u: "?u = Some (Inr (cur1, w2))"
      by (auto simp: Commander_update_def split: option.splits sum.splits)
    have t: "tree_inv cur" using i1 Some by (simp add: commander_inv_def)
    have t1: "tree_inv cur1"
      using u t update_inv(2) [of C n cur w1 cur1 w2] by (auto split: if_splits)
    show ?thesis
    proof (cases "order_is_finished cur1")
      case True
      then have "start_next_order C n (cmd1\<lparr>current_order := None\<rparr>) w2 = Some (Inr (cmd', w'))"
        using assms(1) s Some u by (simp add: Commander_update_def)
      moreover have "commander_inv (cmd1\<lparr>current_order := None\<rparr>)"
        using i1 by (simp add: commander_inv_def)
      ultimately show ?thesis by (rule start_next_order_inv)
    next
      case False
      then have "cmd' = cmd1\<lparr>current_order := Some cur1\<rparr>"
        using assms(1) s Some u by (simp add: Commander_update_def)
      then show ?thesis using i1 t1 by (simp add: commander_inv_def)
    qed
  qed
qed

lemma reachable_inv: "reachable C cmd \<Longrightarrow> commander_inv cmd"
proof (induction rule: reachable.induct)
  case initial
  show ?case by (simp add: commander_inv_def)
next
  case (after_add_order cmd order n w cmd' w')
  then show ?case using add_order_inv by blast
next
  case (after_cancel_order cmd n i w found cmd' w')
  then show ?case using cancel_order_inv by blast
next
  case (after_clear_orders cmd w cmd' w')
  then show ?case using clear_orders_inv [of cmd w] by simp
next
  case (after_update cmd n w cmd' w')
  then show ?case using Commander_update_inv by blast
qed

lemma fresh_no_in_progress: "fresh order \<Longrightarrow> in_progress_at_depth d order = 0"
  by (cases order; cases d) (auto simp: fresh_def)

lemma sum_list_fresh: "\<forall>r \<in> set rest. fresh r \<Longrightarrow> sum_list (map (in_progress_at_depth d) rest) = 0"
  by (induction rest) (auto simp: fresh_no_in_progress)

lemma tree_inv_depth: "tree_inv order \<Longrightarrow> in_progress_at_depth d order \<le> 1"
proof (induction order arbitrary: d rule: tree_inv.induct)
  case (1 i t p s)
  then show ?case by (cases d) auto
next
  case (2 i t p s front rest)
  show ?case
  proof (cases d)
    case 0
    then show ?thesis by simp
  next
    case (Suc d')
    have z: "sum_list (map (in_progress_at_depth d') rest) = 0"
      using "2.prems" by (intro sum_list_fresh) simp
    have "in_progress_at_depth d' front \<le> 1" using "2.IH" "2.prems" by simp
    then show ?thesis unfolding Suc in_progress_at_depth.simps list.map sum_list.Cons z by simp
  qed
qed

lemma fresh_discipline: "fresh order \<Longrightarrow> queue_discipline order"
  by (cases order) (simp add: fresh_def)

lemma tree_inv_discipline: "tree_inv order \<Longrightarrow> queue_discipline order"
  by (induction order rule: tree_inv.induct) (auto simp: fresh_discipline fresh_def)

text \<open>
  C5: in every state a Commander reaches from the empty one by \<^verbatim>\<open>add_order\<close> of newly created
  orders (PENDING, no sub-orders), \<^verbatim>\<open>cancel_order\<close>, \<^verbatim>\<open>clear_orders\<close> and \<^verbatim>\<open>update\<close>, whatever happens
  to the world in between: in every order of the tree of the current order all queued
  sub-orders but the front one are PENDING, so at most the front one is IN\_PROGRESS; at every
  depth of the tree at most one order is IN\_PROGRESS; and the backlog holds only PENDING
  orders without sub-orders.
\<close>

theorem C5_single_active_leaf:
  assumes "reachable C cmd"
  shows "(\<forall>order. current_order cmd = Some order \<longrightarrow>
            queue_discipline order \<and> (\<forall>d. in_progress_at_depth d order \<le> 1)) \<and>
         (\<forall>q \<in> set (orders_queue cmd). status q = PENDING \<and> sub_orders q = [])"
proof (intro conjI allI impI ballI)
  fix order d
  assume "current_order cmd = Some order"
  then have t: "tree_inv order" using reachable_inv [OF assms] by (simp add: commander_inv_def)
  from t show "queue_discipline order" by (rule tree_inv_discipline)
  from t show "in_progress_at_depth d order \<le> 1" by (rule tree_inv_depth)
next
  fix q
  assume "q \<in> set (orders_queue cmd)"
  then have "fresh q" using reachable_inv [OF assms] by (simp add: commander_inv_def)
  then show "status q = PENDING" and "sub_orders q = []" by (simp_all add: fresh_def)
qed

lemma demo_add_order:
  "add_order demo_collaborators (Suc (Suc 0)) \<lparr>current_order = None, orders_queue = []\<rparr>
       demo_move_order demo_world =
     Some (Inr (demo_commander,
       demo_world\<lparr>unit := demo_unit\<lparr>hyperdrive_component :=
             Some (demo_hyperdrive\<lparr>hex_jump_target := Some ((1, 0), Vector 5 5)\<rparr>)\<rparr>,
          order_counter := 12\<rparr>))"
  by (simp add: add_order_def start_next_order_def execute_def run_plan_def demo_collaborators_def
        demo_move_order_def demo_commander_def new_order_def add_sub_order_def
        execute_reach_waypoint_def check_completion_conditions_def at_destination_def
        waypoint_params_def demo_world_def demo_unit_def demo_hyperdrive_def clear_move_target_def)

theorem C5_single_active_leaf_witness:
  "reachable demo_collaborators demo_commander \<and>
   queue_discipline (the (current_order demo_commander)) \<and>
   in_progress_at_depth 0 (the (current_order demo_commander)) = 1 \<and>
   in_progress_at_depth 1 (the (current_order demo_commander)) = 1"
proof -
  have f: "fresh demo_move_order" by (simp add: fresh_def demo_move_order_def)
  have r: "reachable demo_collaborators demo_commander"
    by (rule reachable.after_add_order [OF reachable.initial f demo_add_order])
  have c: "current_order demo_commander = Some (the (current_order demo_commander))"
    by (simp add: demo_commander_def)
  have d: "in_progress_at_depth 0 (the (current_order demo_commander)) = 1"
          "in_progress_at_depth 1 (the (current_order demo_commander)) = 1"
    by (simp_all add: demo_commander_def)
  show ?thesis
    using C5_single_active_leaf [OF r] c d r by blast
qed

section \<open>Updating a terminal order\<close>

lemma status_cancel [simp]: "status (cancel order) = CANCELLED"
  by (cases order) simp

lemma cancel_sel [simp]:
  "order_id (cancel order) = order_id order"
  "sub_orders (cancel order) = map cancel (sub_orders order)"
  by (cases order; simp)+

lemma update_sub_orders_cancelled:
  "\<forall>sub \<in> set subs. status sub = CANCELLED \<Longrightarrow> update_sub_orders C n subs w = Some (Inr ([], w))"
  by (induction subs) auto

lemma with_sub_orders_same: "sub_orders order = subs \<Longrightarrow> with_sub_orders subs order = order"
  by (cases order) auto

text \<open>
  C3, as stated, fails for a terminal order whose sub-order queue is not empty, because
  \<^verbatim>\<open>update\<close> works through the queue before it looks at the order's own status. A cancelled MOVE
  order keeps its cancelled sub-order in the queue, and \<^verbatim>\<open>update\<close> pops it; a FAILED MOVE order with
  a PENDING waypoint left in the queue has that waypoint executed, which sets the hex-jump
  target of the unit's hyperdrive.
\<close>

theorem C3_update_terminal_counterexample:
  "status (cancel (Order 5 MOVE no_params IN_PROGRESS [Order 6 REACH_WAYPOINT no_params IN_PROGRESS []]))
     = CANCELLED \<and>
   Order_update idle_collaborators (Suc 0)
       (cancel (Order 5 MOVE no_params IN_PROGRESS [Order 6 REACH_WAYPOINT no_params IN_PROGRESS []]))
       demo_world
     = Some (Inr (Order 5 MOVE no_params CANCELLED [], demo_world)) \<and>
   sub_orders (cancel (Order 5 MOVE no_params IN_PROGRESS [Order 6 REACH_WAYPOINT no_params IN_PROGRESS []]))
     \<noteq> sub_orders (Order 5 MOVE no_params CANCELLED []) \<and>
   Order_update idle_collaborators (Suc (Suc 0))
       (Order 5 MOVE no_params FAILED
          [Order 6 REACH_WAYPOINT (waypoint_params ''Sol'' (1, 0) (Vector 5 5)) PENDING []])
       demo_world
     = Some (Inr (Order 5 MOVE no_params FAILED
                    [Order 6 REACH_WAYPOINT (waypoint_params ''Sol'' (1, 0) (Vector 5 5)) IN_PROGRESS []],
                  demo_world\<lparr>unit := demo_unit\<lparr>hyperdrive_component :=
                    Some (demo_hyperdrive\<lparr>hex_jump_target := Some ((1, 0), Vector 5 5)\<rparr>)\<rparr>\<rparr>)) \<and>
   demo_unit\<lparr>hyperdrive_component :=
       Some (demo_hyperdrive\<lparr>hex_jump_target := Some ((1, 0), Vector 5 5)\<rparr>)\<rparr> \<noteq> unit demo_world"
  by (simp add: execute_def execute_reach_waypoint_def check_completion_conditions_def
        at_destination_def waypoint_params_def demo_world_def demo_unit_def demo_hyperdrive_def
        clear_move_target_def)

text \<open>
  C3 (amended): for every order whose status is COMPLETED, FAILED or CANCELLED, \<^verbatim>\<open>update\<close> never
  changes the order's own status (nor its id, type or parameters); if its sub-order queue is
  empty, \<^verbatim>\<open>update\<close> returns and is a no-op: the order and the world are unchanged; and on an
  order that has just been cancelled by \<^verbatim>\<open>cancel()\<close>, \<^verbatim>\<open>update\<close> returns, pops the cancelled
  sub-orders and changes nothing else, the world included.
\<close>

theorem C3_update_terminal:
  assumes "status self \<in> {COMPLETED, FAILED, CANCELLED}"
  shows "(Order_update C n self w = Some (Inr (self', w')) \<longrightarrow>
            status self' = status self \<and> order_id self' = order_id self \<and>
            order_type self' = order_type self \<and> parameters self' = parameters self) \<and>
         (sub_orders self = [] \<longrightarrow> Order_update C (Suc n) self w = Some (Inr (self, w))) \<and>
         Order_update C (Suc n) (cancel order) w = Some (Inr (with_sub_orders [] (cancel order), w))"
proof -
  have a: "status self' = status self \<and> order_id self' = order_id self \<and>
            order_type self' = order_type self \<and> parameters self' = parameters self"
    if u: "Order_update C n self w = Some (Inr (self', w'))"
  proof -
    from u obtain m where n: "n = Suc m" by (cases n) auto
    from u n obtain subs where "self' = with_sub_orders subs self"
      using assms by (auto simp: Let_def split: option.splits sum.splits if_splits)
    then show ?thesis by simp
  qed
  have b: "Order_update C (Suc n) self w = Some (Inr (self, w))" if "sub_orders self = []"
    using that assms by (auto simp: with_sub_orders_same)
  have "update_sub_orders C n (sub_orders (cancel order)) w = Some (Inr ([], w))"
    by (rule update_sub_orders_cancelled) simp
  then have c: "Order_update C (Suc n) (cancel order) w = Some (Inr (with_sub_orders [] (cancel order), w))"
    by simp
  show ?thesis using a b c by blast
qed

theorem C3_update_terminal_witness:
  "status (Order 5 MOVE no_params COMPLETED []) \<in> {COMPLETED, FAILED, CANCELLED} \<and>
   sub_orders (Order 5 MOVE no_params COMPLETED []) = [] \<and>
   Order_update idle_collaborators (Suc 0) (Order 5 MOVE no_params COMPLETED []) demo_world
     = Some (Inr (Order 5 MOVE no_params COMPLETED [], demo_world))"
  using C3_update_terminal [of "Order 5 MOVE no_params COMPLETED []" idle_collaborators 0 demo_world]
  by simp

section \<open>Commander\<close>

lemma demo_add_toggle:
  "add_order idle_collaborators (Suc 0) \<lparr>current_order = None, orders_queue = []\<rparr>
       (Order 3 TOGGLE_INHIBITOR no_params PENDING [])
       (demo_world\<lparr>unit := demo_unit\<lparr>inhibitor_component := None\<rparr>\<rparr>)
     = Some (Inr (\<lparr>current_order = Some (Order 3 TOGGLE_INHIBITOR no_params FAILED []),
                    orders_queue = []\<rparr>,
                  demo_world\<lparr>unit := demo_unit\<lparr>inhibitor_component := None\<rparr>\<rparr>))"
  by (simp add: add_order_def start_next_order_def execute_def execute_toggle_inhibitor_def
        demo_unit_def)

text \<open>
  C4, as stated, fails: \<^verbatim>\<open>start_next_order\<close> executes the order it promotes and keeps it as
  \<^verbatim>\<open>current_order\<close> whatever its status then is. A TOGGLE\_INHIBITOR order for a unit without
  an emitter fails inside \<^verbatim>\<open>execute\<close>, so after \<^verbatim>\<open>add_order\<close> on an idle Commander
  \<^verbatim>\<open>current_order\<close> is that order, FAILED.
\<close>

theorem C4_terminal_current_order_counterexample:
  "add_order idle_collaborators (Suc 0) \<lparr>current_order = None, orders_queue = []\<rparr>
       (Order 3 TOGGLE_INHIBITOR no_params PENDING [])
       (demo_world\<lparr>unit := demo_unit\<lparr>inhibitor_component := None\<rparr>\<rparr>)
     = Some (Inr (\<lparr>current_order = Some (Order 3 TOGGLE_INHIBITOR no_params FAILED []),
                    orders_queue = []\<rparr>,
                  demo_world\<lparr>unit := demo_unit\<lparr>inhibitor_component := None\<rparr>\<rparr>)) \<and>
   current_order \<lparr>current_order = Some (Order 3 TOGGLE_INHIBITOR no_params FAILED []),
                  orders_queue = []\<rparr> \<noteq> None \<and>
   status (Order 3 TOGGLE_INHIBITOR no_params FAILED []) \<notin> {PENDING, IN_PROGRESS}"
  using demo_add_toggle by simp

lemma Commander_update_cases:
  assumes "Commander_update C n cmd w = Some (Inr (cmd', w'))"
  shows "current_order cmd' = None \<or>
         (\<exists>cur1. current_order cmd' = Some cur1 \<and> \<not> order_is_finished cur1) \<or>
         (\<exists>cmd1 w1. current_order cmd1 = None \<and> orders_queue cmd1 \<noteq> [] \<and>
            set (orders_queue cmd1) \<subseteq> set (orders_queue cmd) \<and>
            length (orders_queue cmd1) \<le> length (orders_queue cmd) \<and>
            start_next_order C n cmd1 w1 = Some (Inr (cmd', w')))"
proof -
  let ?s = "if current_order cmd = None then start_next_order C n cmd w else Some (Inr (cmd, w))"
  from assms obtain cmd1 w1 where s: "?s = Some (Inr (cmd1, w1))"
    by (auto simp: Commander_update_def split: option.splits sum.splits)
  have q1: "set (orders_queue cmd1) \<subseteq> set (orders_queue cmd) \<and>
            length (orders_queue cmd1) \<le> length (orders_queue cmd)"
  proof (cases "current_order cmd = None \<and> orders_queue cmd \<noteq> []")
    case True
    then show ?thesis
      using s start_next_order_result [of C n cmd w cmd1 w1]
      by (auto dest: list.set_sel(2))
  next
    case False
    then show ?thesis
      using s start_next_order_result [of C n cmd w cmd1 w1] by (auto split: if_splits)
  qed
  show ?thesis
  proof (cases "current_order cmd1")
    case None
    then show ?thesis using assms s by (simp add: Commander_update_def)
  next
    case (Some cur)
    let ?u = "if in_galaxy (unit w1) then Order_update C n cur w1
              else Some (Inr (if status cur = IN_PROGRESS then with_status FAILED cur else cur, w1))"
    from assms s Some obtain cur1 w2 where u: "?u = Some (Inr (cur1, w2))"
      by (auto simp: Commander_update_def split: option.splits sum.splits)
    show ?thesis
    proof (cases "order_is_finished cur1")
      case False
      then have "cmd' = cmd1\<lparr>current_order := Some cur1\<rparr>"
        using assms s Some u by (simp add: Commander_update_def)
      then show ?thesis using False by simp
    next
      case True
      then have n: "start_next_order C n (cmd1\<lparr>current_order := None\<rparr>) w2 = Some (Inr (cmd', w'))"
        using assms s Some u by (simp add: Commander_update_def)
      show ?thesis
      proof (cases "orders_queue cmd1 = []")
        case True
        then show ?thesis using start_next_order_result [OF n] by simp
      next
        case False
        then show ?thesis using n q1
          by (intro disjI2 exI [of _ "cmd1\<lparr>current_order := None\<rparr>"] exI [of _ w2]) simp
      qed
    qed
  qed
qed

text \<open>
  C4 (amended): \<^verbatim>\<open>clear_orders\<close> leaves \<^verbatim>\<open>current_order\<close> null and the backlog empty. When
  \<^verbatim>\<open>Commander.update\<close> returns, \<^verbatim>\<open>current_order\<close> is null, or an order that is not finished (the
  source's test: FAILED, CANCELLED, or COMPLETED with every sub-order completed), or the backlog
  entry that this call has just promoted, which is executed at once and may already be terminal;
  in the last case the backlog has become shorter. If the current order is finished after its
  update, it is discarded and the head of the backlog, if any, takes its place: with an empty
  backlog \<^verbatim>\<open>current_order\<close> becomes null. (\<^verbatim>\<open>add_order\<close> and \<^verbatim>\<open>cancel_order\<close> promote without a
  finish test, so after them \<^verbatim>\<open>current_order\<close> may be terminal.)
\<close>

theorem C4_commander_discards_finished:
  "current_order (fst (clear_orders cmd w)) = None \<and> orders_queue (fst (clear_orders cmd w)) = [] \<and>
   (Commander_update C n cmd w = Some (Inr (cmd', w')) \<longrightarrow>
      (\<forall>order'. current_order cmd' = Some order' \<longrightarrow>
         \<not> order_is_finished order' \<or>
         ((\<exists>q \<in> set (orders_queue cmd). order_id order' = order_id q) \<and>
          length (orders_queue cmd') < length (orders_queue cmd))) \<and>
      (\<forall>cur cur1 w1. current_order cmd = Some cur \<longrightarrow> in_galaxy (unit w) \<longrightarrow>
         Order_update C n cur w = Some (Inr (cur1, w1)) \<longrightarrow> order_is_finished cur1 \<longrightarrow>
           (orders_queue cmd = [] \<longrightarrow> current_order cmd' = None) \<and>
           (orders_queue cmd \<noteq> [] \<longrightarrow>
              (\<exists>order'. current_order cmd' = Some order' \<and>
                 order_id order' = order_id (hd (orders_queue cmd)) \<and>
                 orders_queue cmd' = tl (orders_queue cmd)))))"
proof (intro conjI impI allI)
  show "current_order (fst (clear_orders cmd w)) = None" by (simp add: clear_orders_def)
  show "orders_queue (fst (clear_orders cmd w)) = []" by (simp add: clear_orders_def)
next
  fix order'
  assume u: "Commander_update C n cmd w = Some (Inr (cmd', w'))"
    and c: "current_order cmd' = Some order'"
  from Commander_update_cases [OF u]
  consider "\<not> order_is_finished order'"
    | cmd1 w1 where "current_order cmd1 = None" "orders_queue cmd1 \<noteq> []"
        "set (orders_queue cmd1) \<subseteq> set (orders_queue cmd)"
        "length (orders_queue cmd1) \<le> length (orders_queue cmd)"
        "start_next_order C n cmd1 w1 = Some (Inr (cmd', w'))"
    using c by auto
  then show "\<not> order_is_finished order' \<or>
         ((\<exists>q \<in> set (orders_queue cmd). order_id order' = order_id q) \<and>
          length (orders_queue cmd') < length (orders_queue cmd))"
  proof cases
    case 1
    then show ?thesis by simp
  next
    case 2
    from start_next_order_result [OF 2(5)] 2(1,2) c
    have i: "order_id order' = order_id (hd (orders_queue cmd1))"
      and t: "orders_queue cmd' = tl (orders_queue cmd1)" by auto
    have "hd (orders_queue cmd1) \<in> set (orders_queue cmd)" using 2(2,3) by auto
    moreover have "length (orders_queue cmd') < length (orders_queue cmd)"
      using t 2(2,4) by (cases "orders_queue cmd1") auto
    ultimately show ?thesis using i by blast
  qed
next
  fix cur cur1 w1
  assume u: "Commander_update C n cmd w = Some (Inr (cmd', w'))"
    and c: "current_order cmd = Some cur" and g: "in_galaxy (unit w)"
    and o: "Order_update C n cur w = Some (Inr (cur1, w1))" and f: "order_is_finished cur1"
  from u c g o f
  have n: "start_next_order C n (cmd\<lparr>current_order := None\<rparr>) w1 = Some (Inr (cmd', w'))"
    by (simp add: Commander_update_def)
  {
    assume "orders_queue cmd = []"
    then show "current_order cmd' = None" using start_next_order_result [OF n] by simp
  next
    assume "orders_queue cmd \<noteq> []"
    then show "\<exists>order'. current_order cmd' = Some order' \<and>
                 order_id order' = order_id (hd (orders_queue cmd)) \<and>
                 orders_queue cmd' = tl (orders_queue cmd)"
      using start_next_order_result [OF n] by auto
  }
qed

lemma demo_update_promotes:
  "Commander_update demo_collaborators (Suc (Suc 0))
       \<lparr>current_order = Some (Order 3 TOGGLE_INHIBITOR no_params FAILED []),
        orders_queue = [demo_move_order]\<rparr> demo_world =
     Some (Inr (demo_commander,
       demo_world\<lparr>unit := demo_unit\<lparr>hyperdrive_component :=
             Some (demo_hyperdrive\<lparr>hex_jump_target := Some ((1, 0), Vector 5 5)\<rparr>)\<rparr>,
          order_counter := 12\<rparr>))"
proof -
  have g: "in_galaxy (unit demo_world)" by (simp add: demo_world_def demo_unit_def)
  have u: "Order_update demo_collaborators (Suc (Suc 0)) (Order 3 TOGGLE_INHIBITOR no_params FAILED [])
             demo_world = Some (Inr (Order 3 TOGGLE_INHIBITOR no_params FAILED [], demo_world))"
    by simp
  have f: "order_is_finished (Order 3 TOGGLE_INHIBITOR no_params FAILED [])"
    by (simp add: order_is_finished_def)
  have "start_next_order demo_collaborators (Suc (Suc 0))
          \<lparr>current_order = None, orders_queue = [demo_move_order]\<rparr> demo_world =
        Some (Inr (demo_commander,
          demo_world\<lparr>unit := demo_unit\<lparr>hyperdrive_component :=
             Some (demo_hyperdrive\<lparr>hex_jump_target := Some ((1, 0), Vector 5 5)\<rparr>)\<rparr>,
          order_counter := 12\<rparr>))"
    using demo_add_order by (simp add: add_order_def)
  then show ?thesis using g u f by (simp add: Commander_update_def)
qed

theorem C4_commander_discards_finished_witness:
  "Commander_update demo_collaborators (Suc (Suc 0))
       \<lparr>current_order = Some (Order 3 TOGGLE_INHIBITOR no_params FAILED []),
        orders_queue = [demo_move_order]\<rparr> demo_world =
     Some (Inr (demo_commander,
       demo_world\<lparr>unit := demo_unit\<lparr>hyperdrive_component :=
             Some (demo_hyperdrive\<lparr>hex_jump_target := Some ((1, 0), Vector 5 5)\<rparr>)\<rparr>,
          order_counter := 12\<rparr>)) \<and>
   order_is_finished (Order 3 TOGGLE_INHIBITOR no_params FAILED []) \<and>
   (\<exists>order'. current_order demo_commander = Some order' \<and>
      order_id order' = order_id demo_move_order \<and> orders_queue demo_commander = [])"
proof -
  have g: "in_galaxy (unit demo_world)" by (simp add: demo_world_def demo_unit_def)
  have u: "Order_update demo_collaborators (Suc (Suc 0)) (Order 3 TOGGLE_INHIBITOR no_params FAILED [])
             demo_world = Some (Inr (Order 3 TOGGLE_INHIBITOR no_params FAILED [], demo_world))"
    by simp
  have f: "order_is_finished (Order 3 TOGGLE_INHIBITOR no_params FAILED [])"
    by (simp add: order_is_finished_def)
  show ?thesis
    using C4_commander_discards_finished
      [of "\<lparr>current_order = Some (Order 3 TOGGLE_INHIBITOR no_params FAILED []),
           orders_queue = [demo_move_order]\<rparr>" demo_world demo_collaborators "Suc (Suc 0)"
          demo_commander
          "demo_world\<lparr>unit := demo_unit\<lparr>hyperdrive_component :=
             Some (demo_hyperdrive\<lparr>hex_jump_target := Some ((1, 0), Vector 5 5)\<rparr>)\<rparr>,
             order_counter := 12\<rparr>"]
      demo_update_promotes g u f
    by auto
qed

section \<open>Shortest path between star systems: correctness of the search\<close>

lemma heappop_props:
  assumes "heap \<noteq> []" and "heappop heap = (item, heap1)"
  shows "item \<in> set heap" "\<forall>e \<in> set heap. item \<le> e" "set heap1 \<subseteq> set heap"
    "\<forall>e \<in> set heap. e \<noteq> item \<longrightarrow> e \<in> set heap1" "Suc (length heap1) = length heap"
proof -
  have i: "item = Min (set heap)" and h: "heap1 = remove1 item heap"
    using assms(2) by (auto simp: heappop_def Let_def)
  show m: "item \<in> set heap" using i assms(1) by (simp add: Min_in)
  show "\<forall>e \<in> set heap. item \<le> e" using i by simp
  show "set heap1 \<subseteq> set heap" using h by (simp add: set_remove1_subset)
  show "\<forall>e \<in> set heap. e \<noteq> item \<longrightarrow> e \<in> set heap1" using h by simp
  show "Suc (length heap1) = length heap" using h m by (simp add: length_remove1) (cases heap, auto)
qed

lemma relaxes_refl: "relaxes N cd cn s s"
  by (simp add: relaxes_def)

lemma relaxes_trans:
  assumes "relaxes N cd cn s s1" and "relaxes N cd cn s1 s2"
  shows "relaxes N cd cn s s2"
proof -
  from assms(1) obtain new1 where n1: "priority_queue s1 = priority_queue s @ new1"
    "\<forall>e \<in> set new1. fst e = cd + 1 \<and> distances s (snd e) = Some \<infinity> \<and> distances s1 (snd e) = Some (enat (cd + 1))"
    unfolding relaxes_def by blast
  from assms(2) obtain new2 where n2: "priority_queue s2 = priority_queue s1 @ new2"
    "\<forall>e \<in> set new2. fst e = cd + 1 \<and> distances s1 (snd e) = Some \<infinity> \<and> distances s2 (snd e) = Some (enat (cd + 1))"
    unfolding relaxes_def by blast
  have v1: "(distances s1 v = distances s v \<and> predecessors s1 v = predecessors s v) \<or>
          (v \<in> N \<and> distances s v = Some \<infinity> \<and> distances s1 v = Some (enat (cd + 1)) \<and>
           predecessors s1 v = Some (Some cn) \<and> (cd + 1, v) \<in> set (priority_queue s1))" for v
    using assms(1) unfolding relaxes_def by blast
  have v2: "(distances s2 v = distances s1 v \<and> predecessors s2 v = predecessors s1 v) \<or>
          (v \<in> N \<and> distances s1 v = Some \<infinity> \<and> distances s2 v = Some (enat (cd + 1)) \<and>
           predecessors s2 v = Some (Some cn) \<and> (cd + 1, v) \<in> set (priority_queue s2))" for v
    using assms(2) unfolding relaxes_def by blast
  have v: "(distances s2 v = distances s v \<and> predecessors s2 v = predecessors s v) \<or>
          (v \<in> N \<and> distances s v = Some \<infinity> \<and> distances s2 v = Some (enat (cd + 1)) \<and>
           predecessors s2 v = Some (Some cn) \<and> (cd + 1, v) \<in> set (priority_queue s2))" for v
    using v1 [of v] v2 [of v] n2(1) by auto
  have q: "priority_queue s2 = priority_queue s @ (new1 @ new2)" using n1(1) n2(1) by simp
  have e: "\<forall>e \<in> set (new1 @ new2). fst e = cd + 1 \<and> distances s (snd e) = Some \<infinity> \<and>
                        distances s2 (snd e) = Some (enat (cd + 1))"
  proof
    fix e assume "e \<in> set (new1 @ new2)"
    then consider "e \<in> set new1" | "e \<in> set new2" by auto
    then show "fst e = cd + 1 \<and> distances s (snd e) = Some \<infinity> \<and> distances s2 (snd e) = Some (enat (cd + 1))"
    proof cases
      case 1
      then show ?thesis using n1(2) v2 [of "snd e"] by auto
    next
      case 2
      then show ?thesis using n2(2) v1 [of "snd e"] by auto
    qed
  qed
  show ?thesis
    unfolding relaxes_def
    using assms v q e unfolding relaxes_def by (intro conjI allI) (auto intro: exI [of _ "new1 @ new2"])
qed

lemma relax_neighbor_relaxes:
  assumes fin: "finite (dom (distances s))"
    and key: "neighbor \<in> dom (distances s)"
    and pkey: "neighbor \<in> dom (predecessors s)"
    and lev: "\<forall>v d. distances s v = Some (enat d) \<longrightarrow> d \<le> cd + 1"
  shows "\<exists>s'. relax_neighbor cd cn neighbor s = Inr s' \<and> relaxes {neighbor} cd cn s s' \<and>
           (\<exists>d. distances s' neighbor = Some (enat d) \<and> d \<le> cd + 1)"
proof -
  from key obtain dn where dn: "distances s neighbor = Some dn" by auto
  show ?thesis
  proof (cases "enat (cd + 1) < dn")
    case False
    then obtain d where "dn = enat d" "d \<le> cd + 1" by (cases dn) auto
    then show ?thesis using dn False by (auto simp: relax_neighbor_def relaxes_refl)
  next
    case True
    have inf: "dn = \<infinity>"
    proof (cases dn)
      case (enat d)
      then show ?thesis using lev dn True by force
    qed simp
    let ?s' = "s\<lparr>distances := (distances s)(neighbor \<mapsto> enat (cd + 1)),
                predecessors := (predecessors s)(neighbor \<mapsto> Some cn),
                priority_queue := heappush (priority_queue s) (cd + 1, neighbor)\<rparr>"
    have r: "relax_neighbor cd cn neighbor s = Inr ?s'"
      using dn True by (simp add: relax_neighbor_def)
    have fin_inf: "finite {v. distances s v = Some \<infinity>}"
      by (rule finite_subset [OF _ fin]) auto
    have set_eq: "{v. distances ?s' v = Some \<infinity>} = {v. distances s v = Some \<infinity>} - {neighbor}"
      by auto
    have mem: "neighbor \<in> {v. distances s v = Some \<infinity>}" using dn inf by simp
    have "card {v. distances ?s' v = Some \<infinity>} = card {v. distances s v = Some \<infinity>} - 1"
      unfolding set_eq using fin_inf mem by simp
    moreover have "card {v. distances s v = Some \<infinity>} > 0"
      using fin_inf mem by (auto simp: card_gt_0_iff)
    ultimately have m: "search_measure ?s' = search_measure s"
      by (simp add: search_measure_def heappush_def)
    have d1: "dom (distances ?s') = dom (distances s)" using key by auto
    have pk: "dom (predecessors ?s') = dom (predecessors s)"
      using pkey by auto
    have rel: "relaxes {neighbor} cd cn s ?s'"
      unfolding relaxes_def
    proof (intro conjI allI)
      show "\<exists>new. priority_queue ?s' = priority_queue s @ new \<and>
        (\<forall>e \<in> set new. fst e = cd + 1 \<and> distances s (snd e) = Some \<infinity> \<and>
                        distances ?s' (snd e) = Some (enat (cd + 1)))"
        using dn inf by (intro exI [of _ "[(cd + 1, neighbor)]"]) (simp add: heappush_def)
    qed (use d1 pk m dn inf in \<open>auto simp: heappush_def\<close>)
    show ?thesis using r rel by auto
  qed
qed

lemma relaxes_mono:
  assumes "relaxes N cd cn s s'" and "N \<subseteq> M"
  shows "relaxes M cd cn s s'"
  using assms unfolding relaxes_def by (intro conjI allI) blast+

lemma relaxes_finite_dist:
  assumes "relaxes N cd cn s s'" and "distances s v = Some (enat d)"
  shows "distances s' v = Some (enat d)" and "predecessors s' v = predecessors s v"
  using assms unfolding relaxes_def by (metis enat.distinct(2) option.inject)+

lemma relaxes_dist_cases:
  assumes "relaxes N cd cn s s'" and "distances s' v = Some (enat d)"
  shows "distances s v = Some (enat d) \<or> (distances s v = Some \<infinity> \<and> d = cd + 1)"
  using assms unfolding relaxes_def by (metis enat.inject option.inject)

lemma relax_neighbors_relaxes:
  assumes "finite (dom (distances s))"
    and "set neighbors \<subseteq> dom (distances s)"
    and "set neighbors \<subseteq> dom (predecessors s)"
    and "\<forall>v d. distances s v = Some (enat d) \<longrightarrow> d \<le> cd + 1"
  shows "\<exists>s'. relax_neighbors cd cn neighbors s = Inr s' \<and> relaxes (set neighbors) cd cn s s' \<and>
           (\<forall>v \<in> set neighbors. \<exists>d. distances s' v = Some (enat d) \<and> d \<le> cd + 1)"
  using assms
proof (induction neighbors arbitrary: s)
  case Nil
  then show ?case by (simp add: relaxes_refl)
next
  case (Cons neighbor rest)
  from relax_neighbor_relaxes [of s neighbor cd cn] Cons.prems
  obtain s1 where s1: "relax_neighbor cd cn neighbor s = Inr s1" "relaxes {neighbor} cd cn s s1"
    and n: "\<exists>d. distances s1 neighbor = Some (enat d) \<and> d \<le> cd + 1"
    by auto
  have doms: "dom (distances s1) = dom (distances s)" "dom (predecessors s1) = dom (predecessors s)"
    using s1(2) unfolding relaxes_def by auto
  have lev: "\<forall>v d. distances s1 v = Some (enat d) \<longrightarrow> d \<le> cd + 1"
    using relaxes_dist_cases [OF s1(2)] Cons.prems(4) by fastforce
  from Cons.IH [of s1] Cons.prems doms lev
  obtain s2 where s2: "relax_neighbors cd cn rest s1 = Inr s2" "relaxes (set rest) cd cn s1 s2"
    and r: "\<forall>v \<in> set rest. \<exists>d. distances s2 v = Some (enat d) \<and> d \<le> cd + 1"
    by auto
  have "relaxes (set (neighbor # rest)) cd cn s s2"
    by (rule relaxes_trans [OF relaxes_mono [OF s1(2)] relaxes_mono [OF s2(2)]]) auto
  moreover have "\<exists>d. distances s2 neighbor = Some (enat d) \<and> d \<le> cd + 1"
    using n relaxes_finite_dist(1) [OF s2(2)] by blast
  ultimately show ?case using s1(1) s2(1) r by auto
qed

lemma fst_mono_prod: "(a, b) \<le> (e :: nat \<times> 'a::linorder) \<Longrightarrow> a \<le> fst e"
  by (cases e) (auto simp: less_eq_prod_def)

lemma popped_entry:
  assumes inv: "search_inv g start end_node s"
    and ne: "priority_queue s \<noteq> []"
    and pop: "heappop (priority_queue s) = ((cd, cn), heap1)"
  shows "(cd, cn) \<in> set (priority_queue s)"
    and "\<forall>e \<in> set (priority_queue s). cd \<le> fst e"
    and "\<exists>d'. distances s cn = Some (enat d') \<and> d' \<le> cd"
    and "\<forall>v d. distances s v = Some (enat d) \<longrightarrow> d \<le> cd + 1"
proof -
  show m: "(cd, cn) \<in> set (priority_queue s)" using heappop_props(1) [OF ne pop] .
  show "\<forall>e \<in> set (priority_queue s). cd \<le> fst e"
    using heappop_props(2) [OF ne pop] fst_mono_prod by blast
  show "\<exists>d'. distances s cn = Some (enat d') \<and> d' \<le> cd"
    using inv m unfolding search_inv_def queue_entries_inv_def by fastforce
  show "\<forall>v d. distances s v = Some (enat d) \<longrightarrow> d \<le> cd + 1"
    using inv m unfolding search_inv_def level_inv_def by fastforce
qed

lemma stale_pop_preserves:
  assumes inv: "search_inv g start end_node s"
    and ne: "priority_queue s \<noteq> []"
    and pop: "heappop (priority_queue s) = ((cd, cn), heap1)"
    and stale: "distances s cn = Some (enat d')" "d' < cd"
  shows "search_inv g start end_node (s\<lparr>priority_queue := heap1\<rparr>)"
    and "search_measure (s\<lparr>priority_queue := heap1\<rparr>) < search_measure s"
proof -
  let ?s1 = "s\<lparr>priority_queue := heap1\<rparr>"
  note hp = heappop_props [OF ne pop]
  have kept: "e \<in> set heap1" if "e \<in> set (priority_queue s)" "e \<noteq> (cd, cn)" for e
    using hp(4) that by blast
  have k: "keys_inv g ?s1" "start_inv start ?s1" "pred_inv g start ?s1"
    using inv by (simp_all add: search_inv_def keys_inv_def start_inv_def pred_inv_def)
  have q: "queue_entries_inv ?s1"
    using inv hp(3) by (auto simp: search_inv_def queue_entries_inv_def)
  have l: "level_inv ?s1"
    unfolding level_inv_def
  proof (intro ballI allI impI)
    fix e v d
    assume e: "e \<in> set (priority_queue ?s1)" and v: "distances ?s1 v = Some (enat d)"
    have "e \<in> set (priority_queue s)" using e hp(3) by auto
    moreover have "level_inv s" using inv by (simp add: search_inv_def)
    ultimately show "d \<le> fst e + 1" using v unfolding level_inv_def by auto
  qed
  have se: "settled_inv g ?s1"
    unfolding settled_inv_def
  proof (intro allI impI)
    fix u du ns
    assume u: "distances ?s1 u = Some (enat du)" "(du, u) \<notin> set (priority_queue ?s1)"
      "fmlookup g u = Some ns"
    have "(du, u) \<noteq> (cd, cn)" using u(1) stale by auto
    then have "(du, u) \<notin> set (priority_queue s)" using kept u(2) by auto
    then show "\<forall>v \<in> set ns. \<exists>dv. distances ?s1 v = Some (enat dv) \<and> dv \<le> du + 1"
      using inv u(1,3) unfolding search_inv_def settled_inv_def by auto
  qed
  have e: "end_open_inv end_node ?s1"
    unfolding end_open_inv_def
  proof (intro allI impI)
    fix d
    assume d: "distances ?s1 end_node = Some (enat d)"
    then have "(d, end_node) \<in> set (priority_queue s)"
      using inv by (simp add: search_inv_def end_open_inv_def)
    moreover have "(d, end_node) \<noteq> (cd, cn)" using d stale by auto
    ultimately show "(d, end_node) \<in> set (priority_queue ?s1)" using kept by simp
  qed
  show "search_inv g start end_node ?s1" using k q l se e by (simp add: search_inv_def)
  show "search_measure ?s1 < search_measure s" using hp(5) by (simp add: search_measure_def)
qed

lemma pred_invD:
  assumes "pred_inv g start s" and "distances s v = Some (enat d)" and "v \<noteq> start"
  shows "\<exists>u du ns. predecessors s v = Some (Some u) \<and> distances s u = Some (enat du) \<and> du < d \<and>
           fmlookup g u = Some ns \<and> v \<in> set ns"
  using assms unfolding pred_inv_def by blast

lemma settled_invD:
  assumes "settled_inv g s" and "distances s u = Some (enat du)"
    and "(du, u) \<notin> set (priority_queue s)" and "fmlookup g u = Some ns" and "v \<in> set ns"
  shows "\<exists>dv. distances s v = Some (enat dv) \<and> dv \<le> du + 1"
  using assms unfolding settled_inv_def by blast

lemma queue_entries_invD:
  assumes "queue_entries_inv s" and "e \<in> set (priority_queue s)"
  shows "\<exists>d'. distances s (snd e) = Some (enat d') \<and> d' \<le> fst e"
  using assms unfolding queue_entries_inv_def by blast

lemma end_open_invD:
  assumes "end_open_inv end_node s" and "distances s end_node = Some (enat d)"
  shows "(d, end_node) \<in> set (priority_queue s)"
  using assms unfolding end_open_inv_def by blast

lemma relax_preserves:
  assumes wf: "well_formed g"
    and inv: "search_inv g start end_node s"
    and ne: "priority_queue s \<noteq> []"
    and pop: "heappop (priority_queue s) = ((cd, cn), heap1)"
    and fresh: "distances s cn = Some (enat cd)"
    and other: "cn \<noteq> end_node"
  shows "\<exists>neighbors s2. fmlookup g cn = Some neighbors \<and>
           relax_neighbors cd cn neighbors (s\<lparr>priority_queue := heap1\<rparr>) = Inr s2 \<and>
           search_inv g start end_node s2 \<and> search_measure s2 < search_measure s"
proof -
  let ?s1 = "s\<lparr>priority_queue := heap1\<rparr>"
  note hp = heappop_props [OF ne pop]
  note pe = popped_entry [OF inv ne pop]
  have invs: "keys_inv g s" "start_inv start s" "pred_inv g start s" "queue_entries_inv s"
    "settled_inv g s" "level_inv s" "end_open_inv end_node s"
    using inv by (simp_all add: search_inv_def)
  have kept: "e \<in> set heap1" if "e \<in> set (priority_queue s)" "e \<noteq> (cd, cn)" for e
    using hp(4) that by blast
  have keys: "dom (distances s) = fmdom' g" "dom (predecessors s) = fmdom' g"
    using invs(1) by (simp_all add: keys_inv_def)
  have cng: "cn \<in> fmdom' g" using fresh keys(1) by blast
  then obtain neighbors where nb: "fmlookup g cn = Some neighbors"
    using fmlookup_dom'_iff [where m = g and x = cn] by blast
  have sub: "set neighbors \<subseteq> fmdom' g"
  proof
    fix x assume "x \<in> set neighbors"
    moreover have "cn |\<in>| fmdom g" using nb by (simp add: fmdomI)
    ultimately have "x |\<in>| fmdom g"
      using wf nb unfolding well_formed_def by force
    then show "x \<in> fmdom' g" by (simp add: fmdom'_alt_def)
  qed
  have a1: "finite (dom (distances ?s1))" using keys(1) by simp
  have a2: "set neighbors \<subseteq> dom (distances ?s1)" using sub keys(1) by simp
  have a3: "set neighbors \<subseteq> dom (predecessors ?s1)" using sub keys(2) by simp
  have a4: "\<forall>v d. distances ?s1 v = Some (enat d) \<longrightarrow> d \<le> cd + 1" using pe(4) by simp
  from relax_neighbors_relaxes [OF a1 a2 a3 a4, of cn]
  obtain s2 where r: "relax_neighbors cd cn neighbors ?s1 = Inr s2"
    and rel: "relaxes (set neighbors) cd cn ?s1 s2"
    and near: "\<forall>v \<in> set neighbors. \<exists>d. distances s2 v = Some (enat d) \<and> d \<le> cd + 1"
    by blast
  have fd: "distances s2 v = Some (enat d) \<and> predecessors s2 v = predecessors s v"
    if "distances s v = Some (enat d)" for v d
    using relaxes_finite_dist [OF rel, of v d] that by simp
  have dc: "distances s v = Some (enat d) \<or> (distances s v = Some \<infinity> \<and> d = cd + 1)"
    if "distances s2 v = Some (enat d)" for v d
    using relaxes_dist_cases [OF rel, of v d] that by simp
  have rv: "(distances s2 v = distances s v \<and> predecessors s2 v = predecessors s v) \<or>
          (v \<in> set neighbors \<and> distances s v = Some \<infinity> \<and> distances s2 v = Some (enat (cd + 1)) \<and>
           predecessors s2 v = Some (Some cn) \<and> (cd + 1, v) \<in> set (priority_queue s2))" for v
    using rel unfolding relaxes_def by simp
  have changed: "v \<in> set neighbors \<and> predecessors s2 v = Some (Some cn) \<and>
                  (cd + 1, v) \<in> set (priority_queue s2) \<and> distances s2 v = Some (enat (cd + 1))"
    if "distances s v = Some \<infinity>" "distances s2 v = Some (enat d)" for v d
    using rv [of v] that by auto
  have "\<exists>new. priority_queue s2 = heap1 @ new \<and>
        (\<forall>e \<in> set new. fst e = cd + 1 \<and> distances s (snd e) = Some \<infinity> \<and>
                        distances s2 (snd e) = Some (enat (cd + 1)))"
    using rel unfolding relaxes_def by simp
  then obtain new where new: "priority_queue s2 = heap1 @ new"
    "\<forall>e \<in> set new. fst e = cd + 1 \<and> distances s (snd e) = Some \<infinity> \<and>
                        distances s2 (snd e) = Some (enat (cd + 1))"
    by blast
  have doms: "dom (distances s2) = dom (distances s)" "dom (predecessors s2) = dom (predecessors s)"
    using rel unfolding relaxes_def by simp_all
  have k: "keys_inv g s2"
    using doms keys unfolding keys_inv_def by simp
  have "distances s start = Some (enat 0)" "predecessors s start = Some None"
    using invs(2) by (simp_all add: start_inv_def zero_enat_def)
  then have st: "start_inv start s2"
    using fd [of start 0] unfolding start_inv_def by (simp add: zero_enat_def)
  have p: "pred_inv g start s2"
    unfolding pred_inv_def
  proof (intro allI impI)
    fix v d
    assume v: "distances s2 v = Some (enat d)" "v \<noteq> start"
    from dc [OF v(1)] consider "distances s v = Some (enat d)"
      | "distances s v = Some \<infinity>" "d = cd + 1" by blast
    then show "\<exists>u du ns. predecessors s2 v = Some (Some u) \<and> distances s2 u = Some (enat du) \<and>
                 du < d \<and> fmlookup g u = Some ns \<and> v \<in> set ns"
    proof cases
      case 1
      from pred_invD [OF invs(3) 1 v(2)]
      obtain u du ns where u: "predecessors s v = Some (Some u)" "distances s u = Some (enat du)"
        "du < d" "fmlookup g u = Some ns" "v \<in> set ns"
        by blast
      have "predecessors s2 v = Some (Some u)" using fd [OF 1] u(1) by simp
      moreover have "distances s2 u = Some (enat du)" using fd [OF u(2)] by simp
      ultimately show ?thesis using u(3,4,5) by blast
    next
      case 2
      note c = changed [OF 2(1) v(1)]
      have "predecessors s2 v = Some (Some cn)" using c by simp
      moreover have "distances s2 cn = Some (enat cd)" using fd [OF fresh] by simp
      moreover have "cd < d" using 2(2) by simp
      moreover have "v \<in> set neighbors" using c by simp
      ultimately show ?thesis using nb by blast
    qed
  qed
  have q: "queue_entries_inv s2"
    unfolding queue_entries_inv_def
  proof
    fix e assume "e \<in> set (priority_queue s2)"
    then consider "e \<in> set heap1" | "e \<in> set new" using new(1) by auto
    then show "\<exists>d'. distances s2 (snd e) = Some (enat d') \<and> d' \<le> fst e"
    proof cases
      case 1
      then have "e \<in> set (priority_queue s)" using hp(3) by blast
      from queue_entries_invD [OF invs(4) this]
      obtain d' where d': "distances s (snd e) = Some (enat d')" "d' \<le> fst e" by blast
      then show ?thesis using fd [OF d'(1)] by blast
    next
      case 2
      then have "fst e = cd + 1" "distances s2 (snd e) = Some (enat (cd + 1))" using new(2) by simp_all
      then show ?thesis by simp
    qed
  qed
  have se: "settled_inv g s2"
    unfolding settled_inv_def
  proof (intro allI impI ballI)
    fix u du ns v
    assume u: "distances s2 u = Some (enat du)" "(du, u) \<notin> set (priority_queue s2)"
      "fmlookup g u = Some ns" and vin: "v \<in> set ns"
    show "\<exists>dv. distances s2 v = Some (enat dv) \<and> dv \<le> du + 1"
    proof (cases "u = cn")
      case True
      have "distances s2 cn = Some (enat cd)" using fd [OF fresh] by simp
      then have "du = cd" "ns = neighbors" using u(1,3) nb True by simp_all
      then show ?thesis using near vin by simp
    next
      case False
      from dc [OF u(1)] consider "distances s u = Some (enat du)"
        | "distances s u = Some \<infinity>" by blast
      then show ?thesis
      proof cases
        case 1
        have "(du, u) \<notin> set heap1" using u(2) new(1) by simp
        then have "(du, u) \<notin> set (priority_queue s)" using kept [of "(du, u)"] False by blast
        from settled_invD [OF invs(5) 1 this u(3) vin]
        obtain dv where dv: "distances s v = Some (enat dv)" "dv \<le> du + 1" by blast
        then show ?thesis using fd [OF dv(1)] by blast
      next
        case 2
        note c = changed [OF 2 u(1)]
        have "du = cd + 1" using c u(1) by simp
        then show ?thesis using c u(2) by simp
      qed
    qed
  qed
  have l: "level_inv s2"
    unfolding level_inv_def
  proof (intro ballI allI impI)
    fix e v d
    assume e: "e \<in> set (priority_queue s2)" and v: "distances s2 v = Some (enat d)"
    from e consider "e \<in> set heap1" | "e \<in> set new" using new(1) by auto
    then have "cd \<le> fst e"
    proof cases
      case 1
      then have "e \<in> set (priority_queue s)" using hp(3) by blast
      then show ?thesis using pe(2) by blast
    next
      case 2
      then have "fst e = cd + 1" using new(2) by simp
      then show ?thesis by simp
    qed
    moreover have "d \<le> cd + 1" using dc [OF v] pe(4) by blast
    ultimately show "d \<le> fst e + 1" by simp
  qed
  have eo: "end_open_inv end_node s2"
    unfolding end_open_inv_def
  proof (intro allI impI)
    fix d
    assume d: "distances s2 end_node = Some (enat d)"
    from dc [OF d] consider "distances s end_node = Some (enat d)"
      | "distances s end_node = Some \<infinity>" by blast
    then show "(d, end_node) \<in> set (priority_queue s2)"
    proof cases
      case 1
      have "(d, end_node) \<in> set (priority_queue s)" using end_open_invD [OF invs(7) 1] .
      then have "(d, end_node) \<in> set heap1" using kept [of "(d, end_node)"] other by blast
      then show ?thesis using new(1) by simp
    next
      case 2
      note c = changed [OF 2 d]
      have "d = cd + 1" using c d by simp
      then show ?thesis using c by simp
    qed
  qed
  have "search_measure s2 = search_measure ?s1" using rel unfolding relaxes_def by simp
  also have "\<dots> < search_measure s" using hp(5) by (simp add: search_measure_def)
  finally have m: "search_measure s2 < search_measure s" .
  have "search_inv g start end_node s2" using k st p q se l eo by (simp add: search_inv_def)
  then show ?thesis using nb r m by blast
qed

lemma consecutive_edges_snoc:
  "consecutive_edges g (p @ [v]) \<longleftrightarrow>
     consecutive_edges g p \<and>
     (p = [] \<or> (\<exists>ns. fmlookup g (last p) = Some ns \<and> v \<in> set ns))"
proof (induction p)
  case Nil
  then show ?case by simp
next
  case (Cons u p)
  then show ?case by (cases p) (auto split: option.splits)
qed

lemma trace_back_chain:
  assumes "start_inv start s" and "pred_inv g start s"
  shows "distances s v = Some (enat d) \<Longrightarrow>
         \<exists>chain. trace_back (predecessors s) (Some v) acc = Some (Inr (acc @ chain)) \<and>
           chain \<noteq> [] \<and> hd chain = v \<and> last chain = start \<and>
           consecutive_edges g (rev chain) \<and> length chain \<le> d + 1"
proof (induction d arbitrary: v acc rule: less_induct)
  case (less d)
  show ?case
  proof (cases "v = start")
    case True
    have "predecessors s start = Some None" using assms(1) by (simp add: start_inv_def)
    then have "trace_back (predecessors s) (Some v) acc = Some (Inr (acc @ [start]))"
      using True by (simp add: trace_back.simps)
    then show ?thesis using True by simp
  next
    case False
    from pred_invD [OF assms(2) less.prems False]
    obtain u du ns where u: "predecessors s v = Some (Some u)" "distances s u = Some (enat du)"
      "du < d" "fmlookup g u = Some ns" "v \<in> set ns"
      by blast
    from less.IH [OF u(3) u(2), of "acc @ [v]"]
    obtain chain where c: "trace_back (predecessors s) (Some u) (acc @ [v]) = Some (Inr ((acc @ [v]) @ chain))"
      "chain \<noteq> []" "hd chain = u" "last chain = start" "consecutive_edges g (rev chain)"
      "length chain \<le> du + 1"
      by blast
    have t: "trace_back (predecessors s) (Some v) acc = Some (Inr (acc @ (v # chain)))"
      using u(1) c(1) by (subst trace_back.simps) simp
    have "last (rev chain) = u" using c(2,3) by (simp add: last_rev)
    then have "consecutive_edges g (rev (v # chain))"
      using c(5) u(4,5) by (simp add: consecutive_edges_snoc)
    moreover have "length (v # chain) \<le> d + 1" using c(6) u(3) by simp
    moreover have "last (v # chain) = start" using c(2,4) by simp
    ultimately show ?thesis using t by (intro exI [of _ "v # chain"]) simp
  qed
qed

lemma route_meets_queue:
  assumes "settled_inv g s" and "end_open_inv end_node s"
  shows "consecutive_edges g (u # rest) \<Longrightarrow> last (u # rest) = end_node \<Longrightarrow>
         distances s u = Some (enat du) \<Longrightarrow>
         \<exists>e \<in> set (priority_queue s). fst e \<le> du + length rest"
proof (induction rest arbitrary: u du)
  case Nil
  then have "(du, end_node) \<in> set (priority_queue s)"
    using end_open_invD [OF assms(2)] by simp
  then show ?case by force
next
  case (Cons w rest)
  from Cons.prems(1) obtain ns where ns: "fmlookup g u = Some ns" "w \<in> set ns"
    and ce: "consecutive_edges g (w # rest)"
    by (auto split: option.splits)
  show ?case
  proof (cases "(du, u) \<in> set (priority_queue s)")
    case True
    then show ?thesis by force
  next
    case False
    from settled_invD [OF assms(1) Cons.prems(3) False ns]
    obtain dw where dw: "distances s w = Some (enat dw)" "dw \<le> du + 1" by blast
    have "last (w # rest) = end_node" using Cons.prems(2) by simp
    from Cons.IH [OF ce this dw(1)]
    obtain e where "e \<in> set (priority_queue s)" "fst e \<le> dw + length rest" by blast
    then show ?thesis using dw(2) by (intro bexI [of _ e]) simp_all
  qed
qed

lemma path_meets_queue:
  assumes inv: "search_inv g start end_node s" and p: "is_path g start end_node p"
  shows "\<exists>e \<in> set (priority_queue s). Suc (fst e) \<le> length p"
proof -
  obtain rest where r: "p = start # rest" using p by (cases p) (auto simp: is_path_def)
  have s0: "distances s start = Some (enat 0)"
    using inv by (simp add: search_inv_def start_inv_def zero_enat_def)
  have "settled_inv g s" "end_open_inv end_node s" using inv by (simp_all add: search_inv_def)
  from route_meets_queue [OF this, of start rest 0] p r s0
  show ?thesis by (auto simp: is_path_def)
qed

lemma initial_search_inv:
  assumes "start |\<in>| fmdom g" and "end_node |\<in>| fmdom g" and "start \<noteq> end_node"
  shows "search_inv g start end_node (initial_search_state g start)"
proof -
  let ?s = "initial_search_state g start"
  have d: "distances ?s v = (if v = start then Some 0 else if v |\<in>| fmdom g then Some \<infinity> else None)" for v
    by (simp add: initial_search_state_def)
  have fin: "v = start \<and> k = 0" if "distances ?s v = Some (enat k)" for v k
    using that by (auto simp: d zero_enat_def split: if_splits)
  have "dom (distances ?s) = fmdom' g"
    using assms(1) by (auto simp: d fmdom'_alt_def split: if_splits)
  moreover have "dom (predecessors ?s) = fmdom' g"
    by (auto simp: initial_search_state_def fmdom'_alt_def split: if_splits)
  ultimately have k: "keys_inv g ?s" by (simp add: keys_inv_def)
  have st: "start_inv start ?s" using assms(1) by (simp add: start_inv_def initial_search_state_def)
  have p: "pred_inv g start ?s" unfolding pred_inv_def using fin by blast
  have pq: "priority_queue ?s = [(0, start)]" by (simp add: initial_search_state_def)
  have q: "queue_entries_inv ?s" unfolding queue_entries_inv_def by (simp add: pq d zero_enat_def)
  have se: "settled_inv g ?s" unfolding settled_inv_def using fin pq by fastforce
  have l: "level_inv ?s" unfolding level_inv_def using fin pq by fastforce
  have e: "end_open_inv end_node ?s" unfolding end_open_inv_def using fin assms(3) by blast
  show ?thesis using k st p q se l e by (simp add: search_inv_def)
qed

lemma dijkstra_loop_correct:
  assumes wf: "well_formed g"
  shows "search_inv g start end_node s \<Longrightarrow>
         (\<exists>path. dijkstra_loop g end_node s = Some (Inr (Some path)) \<and>
            is_path g start end_node path \<and>
            (\<forall>p. is_path g start end_node p \<longrightarrow> length path \<le> length p)) \<or>
         (dijkstra_loop g end_node s = Some (Inr None) \<and> (\<forall>p. \<not> is_path g start end_node p))"
proof (induction "search_measure s" arbitrary: s rule: less_induct)
  case less
  note inv = less.prems
  show ?case
  proof (cases "priority_queue s = []")
    case True
    have "dijkstra_loop g end_node s = Some (Inr None)"
      using True by (subst dijkstra_loop.simps) simp
    moreover have "\<not> is_path g start end_node p" for p
      using path_meets_queue [OF inv, of p] True by auto
    ultimately show ?thesis by blast
  next
    case False
    obtain cd cn heap1 where pop: "heappop (priority_queue s) = ((cd, cn), heap1)"
      by (metis surj_pair)
    let ?s1 = "s\<lparr>priority_queue := heap1\<rparr>"
    note pe = popped_entry [OF inv False pop]
    from pe(3) obtain d' where d': "distances s cn = Some (enat d')" "d' \<le> cd" by blast
    show ?thesis
    proof (cases "d' < cd")
      case True
      have unfold: "dijkstra_loop g end_node s = dijkstra_loop g end_node ?s1"
        using False pop d'(1) True by (subst dijkstra_loop.simps) simp
      note sp = stale_pop_preserves [OF inv False pop d'(1) True]
      from less.hyps [OF sp(2) sp(1)] show ?thesis unfolding unfold .
    next
      case fresh: False
      then have eq: "d' = cd" using d'(2) by simp
      have dist: "distances s cn = Some (enat cd)" using d'(1) eq by simp
      show ?thesis
      proof (cases "cn = end_node")
        case True
        have si: "start_inv start s" "pred_inv g start s"
          using inv by (simp_all add: search_inv_def)
        from trace_back_chain [OF si, of end_node cd "[]"] dist True
        obtain chain where c: "trace_back (predecessors s) (Some end_node) [] = Some (Inr chain)"
          "chain \<noteq> []" "hd chain = end_node" "last chain = start"
          "consecutive_edges g (rev chain)" "length chain \<le> cd + 1"
          by auto
        have res: "dijkstra_loop g end_node s = Some (Inr (Some (rev chain)))"
          using False pop dist True c(1) by (subst dijkstra_loop.simps) simp
        have ip: "is_path g start end_node (rev chain)"
          using c(2,3,4,5) by (simp add: is_path_def hd_rev last_rev)
        have "length (rev chain) \<le> length p" if "is_path g start end_node p" for p
        proof -
          from path_meets_queue [OF inv that]
          obtain e where "e \<in> set (priority_queue s)" "Suc (fst e) \<le> length p" by blast
          then have "Suc cd \<le> length p" using pe(2) by fastforce
          then show ?thesis using c(6) by simp
        qed
        then show ?thesis using res ip by blast
      next
        case other: False
        from relax_preserves [OF wf inv False pop dist other]
        obtain neighbors s2 where r: "fmlookup g cn = Some neighbors"
          "relax_neighbors cd cn neighbors ?s1 = Inr s2"
          "search_inv g start end_node s2" "search_measure s2 < search_measure s"
          by blast
        have unfold: "dijkstra_loop g end_node s = dijkstra_loop g end_node s2"
          using False pop dist other r(1,2) by (subst dijkstra_loop.simps) simp
        from less.hyps [OF r(4) r(3)] show ?thesis unfolding unfold .
      qed
    qed
  qed
qed

lemma path_endpoints_are_keys:
  assumes wf: "well_formed g" and p: "is_path g a b p" and ne: "a \<noteq> b"
  shows "a |\<in>| fmdom g \<and> b |\<in>| fmdom g"
proof -
  have step: "consecutive_edges g (u # rest) \<Longrightarrow> rest \<noteq> [] \<Longrightarrow>
              u |\<in>| fmdom g \<and> last (u # rest) |\<in>| fmdom g" for u rest
  proof (induction rest arbitrary: u)
    case Nil
    then show ?case by simp
  next
    case (Cons w rest)
    from Cons.prems(1) obtain ns where ns: "fmlookup g u = Some ns" "w \<in> set ns"
      and ce: "consecutive_edges g (w # rest)"
      by (auto split: option.splits)
    have u: "u |\<in>| fmdom g" using ns(1) by (simp add: fmdomI)
    then have w: "w |\<in>| fmdom g" using wf ns unfolding well_formed_def by force
    show ?case
    proof (cases "rest = []")
      case True
      then show ?thesis using u w by simp
    next
      case False
      from Cons.IH [OF ce False] show ?thesis using u by simp
    qed
  qed
  obtain rest where r: "p = a # rest" using p by (cases p) (auto simp: is_path_def)
  have "rest \<noteq> []" using p r ne by (auto simp: is_path_def)
  from step [of a rest] this p r show ?thesis by (auto simp: is_path_def)
qed

lemma find_intersystem_path_absent:
  assumes "\<not> (start_node |\<in>| fmdom graph \<and> end_node |\<in>| fmdom graph)"
  shows "find_intersystem_path graph start_node end_node = Some (Inr None)"
  using assms unfolding find_intersystem_path_def by (simp only: de_Morgan_conj if_True)

lemma is_path_single: "is_path graph a a [a]"
  by (simp add: is_path_def)

lemma is_path_length: "is_path graph a b p \<Longrightarrow> 1 \<le> length p"
  by (cases p) (simp_all add: is_path_def)

lemma find_intersystem_path_same:
  assumes "start_node |\<in>| fmdom graph"
  shows "find_intersystem_path graph start_node start_node = Some (Inr (Some [start_node]))"
  using assms unfolding find_intersystem_path_def by simp

lemma find_intersystem_path_search:
  assumes "well_formed graph"
    and "start_node |\<in>| fmdom graph" and "end_node |\<in>| fmdom graph"
    and "start_node \<noteq> end_node"
  shows "(\<exists>path. find_intersystem_path graph start_node end_node = Some (Inr (Some path)) \<and>
            is_path graph start_node end_node path \<and>
            (\<forall>p. is_path graph start_node end_node p \<longrightarrow> length path \<le> length p)) \<or>
         (find_intersystem_path graph start_node end_node = Some (Inr None) \<and>
            (\<forall>p. \<not> is_path graph start_node end_node p))"
proof -
  have f: "find_intersystem_path graph start_node end_node =
           dijkstra_loop graph end_node (initial_search_state graph start_node)"
    using assms(2,3,4) unfolding find_intersystem_path_def by simp
  have "search_inv graph start_node end_node (initial_search_state graph start_node)"
    using initial_search_inv [OF assms(2,3,4)] .
  from dijkstra_loop_correct [OF assms(1) this] show ?thesis
    unfolding f .
qed

text \<open>
  The search is correct on every well-formed graph (every node listed as a neighbour is a
  key), the only graphs \<^verbatim>\<open>_build_system_graph\<close> makes. It returns; if both endpoints are keys
  of the graph and a path from the start to the end exists, the result is a list that begins
  with the start, ends with the end, in which every consecutive pair is an edge of the graph,
  and no path from the start to the end is shorter; otherwise (an endpoint is absent, or the
  endpoints are disconnected) the result is the "no path" signal.
\<close>

theorem find_intersystem_path_well_formed:
  assumes "well_formed graph"
  shows "if start_node |\<in>| fmdom graph \<and> end_node |\<in>| fmdom graph \<and>
            (\<exists>p. is_path graph start_node end_node p)
         then (\<exists>path. find_intersystem_path graph start_node end_node = Some (Inr (Some path)) \<and>
                 is_path graph start_node end_node path \<and>
                 (\<forall>p. is_path graph start_node end_node p \<longrightarrow> length path \<le> length p))
         else find_intersystem_path graph start_node end_node = Some (Inr None)"
proof -
  define found where "found \<longleftrightarrow>
    (\<exists>path. find_intersystem_path graph start_node end_node = Some (Inr (Some path)) \<and>
       is_path graph start_node end_node path \<and>
       (\<forall>p. is_path graph start_node end_node p \<longrightarrow> length path \<le> length p))"
  define none where "none \<longleftrightarrow> find_intersystem_path graph start_node end_node = Some (Inr None)"
  define keys where "keys \<longleftrightarrow> start_node |\<in>| fmdom graph \<and> end_node |\<in>| fmdom graph"
  define ex where "ex \<longleftrightarrow> (\<exists>p. is_path graph start_node end_node p)"
  have absent: none if "\<not> keys"
    using find_intersystem_path_absent [of start_node graph end_node] that
    unfolding none_def keys_def .
  have same: found if k: keys and e: "start_node = end_node"
  proof -
    have "start_node |\<in>| fmdom graph" using k unfolding keys_def ..
    from find_intersystem_path_same [OF this]
    have "find_intersystem_path graph start_node end_node = Some (Inr (Some [start_node]))"
      using e by simp
    moreover have "is_path graph start_node end_node [start_node]"
      using is_path_single [of graph start_node] e by simp
    moreover have "\<forall>p. is_path graph start_node end_node p \<longrightarrow> length [start_node] \<le> length p"
      using is_path_length [of graph start_node end_node] by simp
    ultimately show ?thesis unfolding found_def by (intro exI [of _ "[start_node]"] conjI)
  qed
  have search: "found \<or> (none \<and> \<not> ex)" if k: keys and ne: "start_node \<noteq> end_node"
  proof -
    have k1: "start_node |\<in>| fmdom graph" and k2: "end_node |\<in>| fmdom graph"
      using k unfolding keys_def by (rule conjunct1, rule conjunct2)
    from find_intersystem_path_search [OF assms k1 k2 ne]
    show ?thesis unfolding found_def none_def ex_def not_ex .
  qed
  have trivial_ex: ex if "start_node = end_node"
    unfolding ex_def using is_path_single [of graph start_node] that by (intro exI [of _ "[start_node]"]) simp
  have found_ex: ex if found
  proof -
    from that obtain path where "is_path graph start_node end_node path"
      unfolding found_def by (elim exE conjE)
    then show ?thesis unfolding ex_def by (rule exI)
  qed
  have "if keys \<and> ex then found else none"
  proof (cases "keys \<and> ex")
    case True
    then have found using same search by blast
    then show ?thesis unfolding if_P [OF True] .
  next
    case False
    then have none using absent search trivial_ex found_ex by blast
    then show ?thesis unfolding if_not_P [OF False] .
  qed
  then show ?thesis unfolding found_def none_def keys_def ex_def conj_assoc .
qed

lemma triangle_keys: "fmdom triangle_graph = {|''A'', ''B'', ''C'', ''D''|}"
  by (simp add: triangle_graph_def)

lemma triangle_lookup:
  "fmlookup triangle_graph ''A'' = Some [''B'']"
  "fmlookup triangle_graph ''B'' = Some [''C'', ''A'']"
  "fmlookup triangle_graph ''C'' = Some [''A'']"
  "fmlookup triangle_graph ''D'' = Some []"
  by (simp_all add: triangle_graph_def fmlookup_of_list)

lemma triangle_well_formed: "well_formed triangle_graph"
  unfolding well_formed_def triangle_keys
  by (simp add: triangle_lookup)

lemma triangle_path: "is_path triangle_graph ''C'' ''B'' [''C'', ''A'', ''B'']"
  by (simp add: is_path_def triangle_lookup)

text \<open>
  The theorem at the graph \<open>A \<rightarrow> B, B \<rightarrow> C, B \<rightarrow> A, C \<rightarrow> A\<close> with an isolated \<open>D\<close>, from \<open>C\<close> to
  \<open>B\<close>: the graph is well formed, \<open>C, A, B\<close> is a path, and the search returns a path of at
  most three nodes.
\<close>

theorem find_intersystem_path_well_formed_witness:
  "well_formed triangle_graph \<and> is_path triangle_graph ''C'' ''B'' [''C'', ''A'', ''B''] \<and>
   (\<exists>path. find_intersystem_path triangle_graph ''C'' ''B'' = Some (Inr (Some path)) \<and>
      is_path triangle_graph ''C'' ''B'' path \<and> length path \<le> 3)"
proof -
  have c: "''C'' |\<in>| fmdom triangle_graph \<and> ''B'' |\<in>| fmdom triangle_graph \<and>
           (\<exists>p. is_path triangle_graph ''C'' ''B'' p)"
    using triangle_path unfolding triangle_keys by (intro conjI exI [of _ "[''C'', ''A'', ''B'']"]) simp_all
  from find_intersystem_path_well_formed [OF triangle_well_formed, of "''C''" "''B''"]
  obtain path where p: "find_intersystem_path triangle_graph ''C'' ''B'' = Some (Inr (Some path))"
    "is_path triangle_graph ''C'' ''B'' path"
    "\<forall>p. is_path triangle_graph ''C'' ''B'' p \<longrightarrow> length path \<le> length p"
    unfolding if_P [OF c] by (elim exE conjE)
  have "length path \<le> length [''C'', ''A'', ''B'']" using p(3) triangle_path by (elim allE impE)
  then have "length path \<le> 3" by simp
  then show ?thesis using triangle_well_formed triangle_path p(1,2) by (intro conjI exI [of _ path])
qed





end
